theory Spec2Isabelle
  imports Main "HOL-Library.Monad_Syntax"
begin

section \<open>The minesweeper board engine of \<^verbatim>\<open>src/games/minesweeper.c\<close>\<close>

text \<open>
  The C module keeps one global \<^verbatim>\<open>MinesweeperGame\<close> and mutates it in place. Here every
  function takes the game and returns the new one. C \<^verbatim>\<open>int\<close> fields are modelled as
  \<^typ>\<open>int\<close>: on a configured board (at most 30 columns and 16 rows) every counter the
  engine touches stays far below \<open>2 ^ 31\<close>. The three grids
  \<^verbatim>\<open>mines[MAX_HEIGHT][MAX_WIDTH]\<close>, \<^verbatim>\<open>state[..][..]\<close> and \<^verbatim>\<open>numbers[..][..]\<close> are functions of
  row and column; the code reads and writes them only at positions that passed
  \<^verbatim>\<open>is_valid_position\<close> or that a loop over \<open>0 \<le> i < height\<close>, \<open>0 \<le> j < width\<close> produced.
  The wall-clock fields (\<^verbatim>\<open>start_time\<close>, the three best times) are left out: no function
  below reads them.
\<close>

subsection \<open>Data\<close>

datatype Difficulty =
  DIFFICULTY_BEGINNER | DIFFICULTY_INTERMEDIATE | DIFFICULTY_EXPERT | DIFFICULTY_CUSTOM

datatype CellState = CELL_HIDDEN | CELL_REVEALED | CELL_FLAGGED

record MinesweeperGame =
  width :: int
  height :: int
  mine_count :: int
  revealed_count :: int
  flag_count :: int
  flags_placed :: int
  game_over :: bool
  victory :: bool
  games_played :: int
  games_won :: int
  mines :: "int \<Rightarrow> int \<Rightarrow> bool"
  state :: "int \<Rightarrow> int \<Rightarrow> CellState"
  numbers :: "int \<Rightarrow> int \<Rightarrow> int"
  first_click :: bool

definition MAX_WIDTH :: int where "MAX_WIDTH = 30"
definition MAX_HEIGHT :: int where "MAX_HEIGHT = 16"
definition MIN_WIDTH :: int where "MIN_WIDTH = 5"
definition MIN_HEIGHT :: int where "MIN_HEIGHT = 5"

text \<open>The array store \<^verbatim>\<open>grid[row][col] = v\<close>.\<close>

definition grid_set :: "(int \<Rightarrow> int \<Rightarrow> 'a) \<Rightarrow> int \<Rightarrow> int \<Rightarrow> 'a \<Rightarrow> int \<Rightarrow> int \<Rightarrow> 'a" where
  "grid_set grid row col v = (\<lambda>i j. if i = row \<and> j = col then v else grid i j)"

subsection \<open>Bounds and adjacency\<close>

definition is_valid_position :: "MinesweeperGame \<Rightarrow> int \<Rightarrow> int \<Rightarrow> bool" where
  "is_valid_position g row col \<longleftrightarrow> row \<ge> 0 \<and> row < height g \<and> col \<ge> 0 \<and> col < width g"

text \<open>
  The loop nest \<^verbatim>\<open>for dr in -1..1, for dc in -1..1, skip (0,0)\<close> visits these eight offsets
  in this order.
\<close>

definition neighbour_offsets :: "(int \<times> int) list" where
  "neighbour_offsets = [(-1,-1), (-1,0), (-1,1), (0,-1), (0,1), (1,-1), (1,0), (1,1)]"

fun count_loop :: "MinesweeperGame \<Rightarrow> int \<Rightarrow> int \<Rightarrow> (int \<times> int) list \<Rightarrow> int \<Rightarrow> int" where
  "count_loop g row col [] count = count"
| "count_loop g row col ((dr, dc) # ds) count =
     count_loop g row col ds
       (if is_valid_position g (row + dr) (col + dc) \<and> mines g (row + dr) (col + dc)
        then count + 1 else count)"

definition count_adjacent_mines :: "MinesweeperGame \<Rightarrow> int \<Rightarrow> int \<Rightarrow> int" where
  "count_adjacent_mines g row col = count_loop g row col neighbour_offsets 0"

text \<open>
  \<^verbatim>\<open>calculate_numbers\<close> writes \<^verbatim>\<open>numbers[i][j]\<close> for every in-bounds cell without a mine and
  reads only \<^verbatim>\<open>mines\<close>, which it never writes: the double loop is the pointwise update.
\<close>

definition calculate_numbers :: "MinesweeperGame \<Rightarrow> MinesweeperGame" where
  "calculate_numbers g =
     g\<lparr>numbers := (\<lambda>i j. if is_valid_position g i j \<and> \<not> mines g i j
                          then count_adjacent_mines g i j else numbers g i j)\<rparr>"

subsection \<open>Configuration\<close>

text \<open>The \<^verbatim>\<open>Clear grids\<close> loop nest, shared by the presets and the custom path.\<close>

definition clear_grids :: "MinesweeperGame \<Rightarrow> MinesweeperGame" where
  "clear_grids g =
     g\<lparr>mines := (\<lambda>i j. if is_valid_position g i j then False else mines g i j),
       state := (\<lambda>i j. if is_valid_position g i j then CELL_HIDDEN else state g i j),
       numbers := (\<lambda>i j. if is_valid_position g i j then 0 else numbers g i j)\<rparr>"

text \<open>The \<^verbatim>\<open>Initialize game state\<close> assignments, again shared by both paths.\<close>

definition reset_counters :: "MinesweeperGame \<Rightarrow> MinesweeperGame" where
  "reset_counters g =
     g\<lparr>revealed_count := 0, flag_count := mine_count g, flags_placed := 0,
       game_over := False, victory := False, first_click := True\<rparr>"

fun setup_difficulty :: "Difficulty \<Rightarrow> MinesweeperGame \<Rightarrow> MinesweeperGame" where
  "setup_difficulty DIFFICULTY_BEGINNER g =
     clear_grids (reset_counters (g\<lparr>width := 9, height := 9, mine_count := 10\<rparr>))"
| "setup_difficulty DIFFICULTY_INTERMEDIATE g =
     clear_grids (reset_counters (g\<lparr>width := 16, height := 16, mine_count := 40\<rparr>))"
| "setup_difficulty DIFFICULTY_EXPERT g =
     clear_grids (reset_counters (g\<lparr>width := 30, height := 16, mine_count := 99\<rparr>))"
| "setup_difficulty DIFFICULTY_CUSTOM g = clear_grids (reset_counters g)"

datatype config_error = Invalid_width | Invalid_height | Invalid_mine_count

text \<open>
  Menu choice 4 of \<^verbatim>\<open>play_minesweeper\<close>. Each argument is what one \<^verbatim>\<open>scanf("%d", ...)\<close>
  delivered: \<open>None\<close> when it matched no number (the field keeps its old value), otherwise the
  number, which \<^verbatim>\<open>scanf\<close> has already stored in the field when the range test runs. \<open>Inl\<close>
  is the \<^verbatim>\<open>continue\<close> after an \<^verbatim>\<open>Invalid ...!\<close> message, with the game as it was left;
  \<open>Inr\<close> is the game handed to \<^verbatim>\<open>play_game_loop\<close>.
\<close>

definition scanf_int :: "int option \<Rightarrow> int \<Rightarrow> int" where
  "scanf_int inp old = (case inp of None \<Rightarrow> old | Some v \<Rightarrow> v)"

definition custom_setup ::
  "int option \<Rightarrow> int option \<Rightarrow> int option \<Rightarrow> MinesweeperGame
     \<Rightarrow> config_error \<times> MinesweeperGame + MinesweeperGame" where
  "custom_setup w_in h_in m_in g =
     (let g1 = g\<lparr>width := scanf_int w_in (width g)\<rparr> in
      if w_in = None \<or> width g1 < MIN_WIDTH \<or> width g1 > MAX_WIDTH then Inl (Invalid_width, g1)
      else
        let g2 = g1\<lparr>height := scanf_int h_in (height g1)\<rparr> in
        if h_in = None \<or> height g2 < MIN_HEIGHT \<or> height g2 > MAX_HEIGHT
        then Inl (Invalid_height, g2)
        else
          let max_mines = (width g2 * height g2) div 4;
              g3 = g2\<lparr>mine_count := scanf_int m_in (mine_count g2)\<rparr> in
          if m_in = None \<or> mine_count g3 < 1 \<or> mine_count g3 > max_mines
          then Inl (Invalid_mine_count, g3)
          else Inr (clear_grids (reset_counters g3)))"

subsection \<open>Mine generation\<close>

text \<open>
  \<^verbatim>\<open>generate_mines\<close> seeds the C library generator from the clock and then calls \<^verbatim>\<open>rand()\<close>
  twice per iteration. The library is not part of the repository, so the values it returns
  are an input: \<open>rs\<close> is a finite prefix of the non-negative numbers \<^verbatim>\<open>rand()\<close> yields after
  \<^verbatim>\<open>srand(time(NULL))\<close>. The \<^verbatim>\<open>while\<close> loop has no bound of its own; \<open>None\<close> says that it
  is still running when the prefix is used up.
\<close>

fun place_mines_loop ::
  "nat list \<Rightarrow> int \<Rightarrow> int \<Rightarrow> MinesweeperGame \<Rightarrow> int \<Rightarrow> MinesweeperGame option" where
  "place_mines_loop (r1 # r2 # rs) start_row start_col g mines_placed =
     (if mines_placed < mine_count g then
        (let row = int r1 mod height g; col = int r2 mod width g in
         if (row = start_row \<and> col = start_col) \<or> mines g row col
         then place_mines_loop rs start_row start_col g mines_placed
         else place_mines_loop rs start_row start_col
                (g\<lparr>mines := grid_set (mines g) row col True\<rparr>) (mines_placed + 1))
      else Some g)"
| "place_mines_loop rs start_row start_col g mines_placed =
     (if mines_placed < mine_count g then None else Some g)"

definition generate_mines ::
  "nat list \<Rightarrow> int \<Rightarrow> int \<Rightarrow> MinesweeperGame \<Rightarrow> MinesweeperGame option" where
  "generate_mines rs start_row start_col g =
     map_option calculate_numbers (place_mines_loop rs start_row start_col g 0)"

subsection \<open>Flags and victory\<close>

definition set_state :: "MinesweeperGame \<Rightarrow> int \<Rightarrow> int \<Rightarrow> CellState \<Rightarrow> MinesweeperGame" where
  "set_state g row col s = g\<lparr>state := grid_set (state g) row col s\<rparr>"

definition toggle_flag :: "int \<Rightarrow> int \<Rightarrow> MinesweeperGame \<Rightarrow> MinesweeperGame" where
  "toggle_flag row col g =
     (if \<not> is_valid_position g row col \<or> state g row col = CELL_REVEALED then g
      else if state g row col = CELL_FLAGGED
      then (set_state g row col CELL_HIDDEN)\<lparr>flags_placed := flags_placed g - 1\<rparr>
      else if flags_placed g < mine_count g
      then (set_state g row col CELL_FLAGGED)\<lparr>flags_placed := flags_placed g + 1\<rparr>
      else g)"

definition check_victory :: "MinesweeperGame \<Rightarrow> bool" where
  "check_victory g \<longleftrightarrow> revealed_count g = width g * height g - mine_count g"

text \<open>
  \<^verbatim>\<open>game_over_sequence\<close>: the flags and statistics, then the \<^verbatim>\<open>Reveal all mines\<close> loop
  nest, which writes \<^verbatim>\<open>state\<close> and reads \<^verbatim>\<open>mines\<close>.
\<close>

definition game_over_sequence :: "bool \<Rightarrow> MinesweeperGame \<Rightarrow> MinesweeperGame" where
  "game_over_sequence won g =
     (let g1 = g\<lparr>game_over := True, victory := won, games_played := games_played g + 1\<rparr>;
          g2 = (if won then g1\<lparr>games_won := games_won g1 + 1\<rparr> else g1)
      in g2\<lparr>state := (\<lambda>i j. if is_valid_position g2 i j \<and> mines g2 i j
                             then CELL_REVEALED else state g2 i j)\<rparr>)"

subsection \<open>Revealing cells\<close>

text \<open>
  \<^verbatim>\<open>reveal_cell\<close> and \<^verbatim>\<open>reveal_adjacent_cells\<close> call each other. The second is a loop nest
  over the eight offsets; \<open>reveal_adjacent_loop\<close> carries the offsets still to visit. The
  random numbers \<open>rs\<close> are read only by the first click. A loss is recorded by two
  assignments in \<^verbatim>\<open>reveal_cell\<close> itself; \<^verbatim>\<open>game_over_sequence\<close> is called on victory only.
\<close>

text \<open>The block \<^verbatim>\<open>Handle first click\<close> (the clock value it stores is not modelled).\<close>

definition handle_first_click ::
  "nat list \<Rightarrow> int \<Rightarrow> int \<Rightarrow> MinesweeperGame \<Rightarrow> MinesweeperGame option" where
  "handle_first_click rs row col g =
     (if first_click g
      then map_option (\<lambda>g'. g'\<lparr>first_click := False\<rparr>) (generate_mines rs row col g)
      else Some g)"

text \<open>The two statements \<^verbatim>\<open>game.state[row][col] = CELL_REVEALED; game.revealed_count++;\<close>\<close>

definition mark_revealed :: "MinesweeperGame \<Rightarrow> int \<Rightarrow> int \<Rightarrow> MinesweeperGame" where
  "mark_revealed g row col =
     (set_state g row col CELL_REVEALED)\<lparr>revealed_count := revealed_count g + 1\<rparr>"

function reveal_cell :: "nat list \<Rightarrow> int \<Rightarrow> int \<Rightarrow> MinesweeperGame \<Rightarrow> MinesweeperGame option"
  and reveal_adjacent_loop ::
    "nat list \<Rightarrow> (int \<times> int) list \<Rightarrow> int \<Rightarrow> int \<Rightarrow> MinesweeperGame \<Rightarrow> MinesweeperGame option"
where
  "reveal_cell rs row col g =
     (if \<not> is_valid_position g row col \<or> state g row col \<noteq> CELL_HIDDEN then Some g
      else do {
        g0 \<leftarrow> handle_first_click rs row col g;
        let g1 = mark_revealed g0 row col;
        if mines g1 row col then Some (g1\<lparr>game_over := True, victory := False\<rparr>)
        else do {
          g2 \<leftarrow> (if numbers g1 row col = 0
                 then reveal_adjacent_loop rs neighbour_offsets row col g1
                 else Some g1);
          Some (if check_victory g2 then game_over_sequence True g2 else g2)
        }
      })"
| "reveal_adjacent_loop rs [] row col g = Some g"
| "reveal_adjacent_loop rs ((dr, dc) # ds) row col g = do {
     g' \<leftarrow> (if is_valid_position g (row + dr) (col + dc)
               \<and> state g (row + dr) (col + dc) = CELL_HIDDEN
            then reveal_cell rs (row + dr) (col + dc) g
            else Some g);
     reveal_adjacent_loop rs ds row col g'
   }"
  by pat_completeness auto

definition reveal_adjacent_cells ::
  "nat list \<Rightarrow> int \<Rightarrow> int \<Rightarrow> MinesweeperGame \<Rightarrow> MinesweeperGame option" where
  "reveal_adjacent_cells rs row col g = reveal_adjacent_loop rs neighbour_offsets row col g"

subsection \<open>The game loop and the menu\<close>

text \<open>
  \<^verbatim>\<open>init_minesweeper\<close> zeroes the structure (\<^verbatim>\<open>memset\<close>) and sets \<^verbatim>\<open>first_click\<close>.
\<close>

definition init_minesweeper :: MinesweeperGame where
  "init_minesweeper =
     \<lparr>width = 0, height = 0, mine_count = 0, revealed_count = 0, flag_count = 0,
      flags_placed = 0, game_over = False, victory = False, games_played = 0, games_won = 0,
      mines = (\<lambda>i j. False), state = (\<lambda>i j. CELL_HIDDEN), numbers = (\<lambda>i j. 0),
      first_click = True\<rparr>"

text \<open>
  What \<^verbatim>\<open>parse_input\<close> hands to \<^verbatim>\<open>play_game_loop\<close>: an action with its row and column.
  \<open>Other\<close> stands for the help and statistics screens and for an invalid command, none of
  which touches the game. The loop runs while \<^verbatim>\<open>game_over\<close> is false and input is left.
\<close>

datatype command = Reveal int int | Flag int int | Quit | Other

fun play_game_loop :: "nat list \<Rightarrow> command list \<Rightarrow> MinesweeperGame \<Rightarrow> MinesweeperGame option" where
  "play_game_loop rs [] g = Some g"
| "play_game_loop rs (c # cs) g =
     (if game_over g then Some g
      else case c of
             Reveal row col \<Rightarrow> reveal_cell rs row col g \<bind> play_game_loop rs cs
           | Flag row col \<Rightarrow> play_game_loop rs cs (toggle_flag row col g)
           | Quit \<Rightarrow> Some g
           | Other \<Rightarrow> play_game_loop rs cs g)"

subsection \<open>Sets of cells\<close>

definition board_cells :: "MinesweeperGame \<Rightarrow> (int \<times> int) set" where
  "board_cells g = {0..<height g} \<times> {0..<width g}"

definition hidden_cells :: "MinesweeperGame \<Rightarrow> (int \<times> int) set" where
  "hidden_cells g = Set.filter (\<lambda>(i, j). state g i j = CELL_HIDDEN) (board_cells g)"

definition mine_cells :: "MinesweeperGame \<Rightarrow> (int \<times> int) set" where
  "mine_cells g = Set.filter (\<lambda>(i, j). mines g i j) (board_cells g)"

text \<open>The cells the placement loop draws from \<open>rs\<close>, two numbers per iteration.\<close>

fun drawn_cells :: "MinesweeperGame \<Rightarrow> nat list \<Rightarrow> (int \<times> int) list" where
  "drawn_cells g (r1 # r2 # rs) = (int r1 mod height g, int r2 mod width g) # drawn_cells g rs"
| "drawn_cells g rs = []"

definition revealed_cells :: "MinesweeperGame \<Rightarrow> (int \<times> int) set" where
  "revealed_cells g = Set.filter (\<lambda>(i, j). state g i j = CELL_REVEALED) (board_cells g)"

text \<open>
  The session status the final screen of \<^verbatim>\<open>display_game\<close> distinguishes: won is
  \<^verbatim>\<open>game_over && victory\<close>, lost is \<^verbatim>\<open>game_over && !victory\<close>.
\<close>

definition session_won :: "MinesweeperGame \<Rightarrow> bool" where
  "session_won g \<longleftrightarrow> game_over g \<and> victory g"

definition session_lost :: "MinesweeperGame \<Rightarrow> bool" where
  "session_lost g \<longleftrightarrow> game_over g \<and> \<not> victory g"

text \<open>
  A board as both configuration paths leave it: dimensions and mine count in range, counters
  at zero, every cell hidden and without a mine, mines still to be placed.
\<close>

definition configured :: "MinesweeperGame \<Rightarrow> bool" where
  "configured g \<longleftrightarrow>
     MIN_WIDTH \<le> width g \<and> width g \<le> MAX_WIDTH \<and> MIN_HEIGHT \<le> height g \<and> height g \<le> MAX_HEIGHT \<and>
     1 \<le> mine_count g \<and> mine_count g \<le> (width g * height g) div 4 \<and>
     revealed_count g = 0 \<and> flags_placed g = 0 \<and> \<not> game_over g \<and> first_click g \<and>
     mine_cells g = {} \<and> hidden_cells g = board_cells g"

text \<open>Every cell without a mine carries the number of mines around it.\<close>

definition numbers_ok :: "MinesweeperGame \<Rightarrow> bool" where
  "numbers_ok g \<longleftrightarrow>
     (\<forall>(i, j) \<in> board_cells g. \<not> mines g i j \<longrightarrow> numbers g i j = count_adjacent_mines g i j)"

text \<open>
  What holds of the game at every call inside a cascade: the mines are placed and counted,
  the numbers are right, \<^verbatim>\<open>revealed_count\<close> counts the revealed cells without a mine, no
  mine is revealed while the game runs, and a game that is over inside a cascade is won
  with every cell revealed.
\<close>

definition cascade_inv :: "MinesweeperGame \<Rightarrow> bool" where
  "cascade_inv g \<longleftrightarrow>
     0 < width g \<and> 0 < height g \<and> \<not> first_click g \<and>
     int (card (mine_cells g)) = mine_count g \<and> numbers_ok g \<and>
     revealed_count g = int (card (revealed_cells g - mine_cells g)) \<and>
     (if game_over g then victory g \<and> check_victory g \<and> revealed_cells g = board_cells g
      else revealed_cells g \<inter> mine_cells g = {})"

text \<open>What a reveal leaves alone: the board, its mines and numbers, and the flag counter.\<close>

definition same_board :: "MinesweeperGame \<Rightarrow> MinesweeperGame \<Rightarrow> bool" where
  "same_board g g' \<longleftrightarrow>
     width g' = width g \<and> height g' = height g \<and> mine_count g' = mine_count g \<and>
     mines g' = mines g \<and> numbers g' = numbers g \<and> flags_placed g' = flags_placed g \<and>
     first_click g' = first_click g"

text \<open>What holds of the game between any two commands of a session.\<close>

definition session_inv :: "MinesweeperGame \<Rightarrow> bool" where
  "session_inv g \<longleftrightarrow>
     0 < width g \<and> 0 < height g \<and> 1 \<le> mine_count g \<and>
     mine_count g \<le> (width g * height g) div 4 \<and>
     0 \<le> revealed_count g \<and> revealed_count g \<le> width g * height g - mine_count g \<and>
     flags_placed g \<le> mine_count g \<and>
     (if first_click g
      then \<not> game_over g \<and> revealed_count g = 0 \<and> mine_cells g = {} \<and> revealed_cells g = {}
      else if game_over g
      then (victory g \<longrightarrow> check_victory g \<and> mine_cells g \<subseteq> revealed_cells g)
      else cascade_inv g \<and> \<not> check_victory g)"

text \<open>
  From \<open>g\<close> to \<open>g'\<close> cells only become revealed: every cell whose state differs is on the
  board and revealed in \<open>g'\<close>, and it was hidden in \<open>g\<close> unless it holds a mine.
\<close>

definition only_reveals :: "MinesweeperGame \<Rightarrow> MinesweeperGame \<Rightarrow> bool" where
  "only_reveals g g' \<longleftrightarrow>
     (\<forall>i j. state g' i j \<noteq> state g i j \<longrightarrow>
        is_valid_position g i j \<and> state g' i j = CELL_REVEALED \<and>
        (state g i j = CELL_HIDDEN \<or> mines g i j))"

text \<open>A cell of the board without a mine and with no mine around it.\<close>

definition zero_cell :: "MinesweeperGame \<Rightarrow> int \<Rightarrow> int \<Rightarrow> bool" where
  "zero_cell g i j \<longleftrightarrow>
     is_valid_position g i j \<and> \<not> mines g i j \<and> count_adjacent_mines g i j = 0"

text \<open>
  The region a click on \<open>(row, col)\<close> opens: the clicked cell, and every hidden neighbour of
  a cell of the region that has no mine around it. Cells with a number belong to it as
  neighbours but spread no further; flagged and revealed cells are not entered.
\<close>

inductive_set cascade_region :: "MinesweeperGame \<Rightarrow> int \<Rightarrow> int \<Rightarrow> (int \<times> int) set"
  for g :: MinesweeperGame and row :: int and col :: int where
  clicked: "(row, col) \<in> cascade_region g row col"
| spread: "(i, j) \<in> cascade_region g row col \<Longrightarrow> zero_cell g i j \<Longrightarrow>
           (dr, dc) \<in> set neighbour_offsets \<Longrightarrow> is_valid_position g (i + dr) (j + dc) \<Longrightarrow>
           state g (i + dr) (j + dc) = CELL_HIDDEN \<Longrightarrow>
           (i + dr, j + dc) \<in> cascade_region g row col"

code_pred cascade_regionp .

text \<open>
  Every cell with no mine around it that went from hidden in \<open>g\<close> to revealed in \<open>g'\<close> has
  no hidden neighbour left in \<open>g'\<close>.
\<close>

definition closed_zeros :: "MinesweeperGame \<Rightarrow> MinesweeperGame \<Rightarrow> bool" where
  "closed_zeros g g' \<longleftrightarrow>
     (\<forall>i j. zero_cell g i j \<and> state g i j = CELL_HIDDEN \<and> state g' i j = CELL_REVEALED \<longrightarrow>
        (\<forall>(dr, dc) \<in> set neighbour_offsets.
           is_valid_position g (i + dr) (j + dc) \<longrightarrow> state g' (i + dr) (j + dc) \<noteq> CELL_HIDDEN))"

text \<open>The cells that are hidden in \<open>g\<close> and revealed in \<open>g'\<close>.\<close>

definition newly_revealed :: "MinesweeperGame \<Rightarrow> MinesweeperGame \<Rightarrow> (int \<times> int) set" where
  "newly_revealed g g' =
     Set.filter (\<lambda>(i, j). state g i j = CELL_HIDDEN \<and> state g' i j = CELL_REVEALED) (board_cells g)"

text \<open>
  Boards for the examples: what menu choice 4 builds from the inputs 5, 5 and \<open>m\<close> on a
  freshly initialised game.
\<close>

definition custom_board :: "int \<Rightarrow> MinesweeperGame" where
  "custom_board m =
     (case custom_setup (Some 5) (Some 5) (Some m) init_minesweeper of
        Inr g \<Rightarrow> g | Inl (e, g) \<Rightarrow> g)"

text \<open>
  Whether some reveal command of a session, issued while the game was running, opened a
  cell that holds a mine. This is read off the run; the code keeps no such record.
\<close>

fun mine_hit :: "nat list \<Rightarrow> command list \<Rightarrow> MinesweeperGame \<Rightarrow> bool" where
  "mine_hit rs [] g = False"
| "mine_hit rs (c # cs) g =
     (if game_over g then False
      else case c of
             Reveal row col \<Rightarrow>
               (case reveal_cell rs row col g of
                  None \<Rightarrow> False
                | Some g' \<Rightarrow>
                    (is_valid_position g row col \<and> state g row col = CELL_HIDDEN \<and> mines g' row col)
                    \<or> mine_hit rs cs g')
           | Flag row col \<Rightarrow> mine_hit rs cs (toggle_flag row col g)
           | Quit \<Rightarrow> False
           | Other \<Rightarrow> mine_hit rs cs g)"

section \<open>Termination of the cascade\<close>

text \<open>
  Every call of \<^verbatim>\<open>reveal_cell\<close> that gets past its guard turns one hidden cell of the board
  into a revealed one, and nothing in a reveal hides a cell again: the number of hidden
  cells bounds the recursion.
\<close>

lemma grid_set_apply [simp]:
  "grid_set grid row col v i j = (if i = row \<and> j = col then v else grid i j)"
  by (simp add: grid_set_def)

lemma board_cells_iff: "(i, j) \<in> board_cells g \<longleftrightarrow> is_valid_position g i j"
  by (auto simp: board_cells_def is_valid_position_def)

lemma finite_board_cells: "finite (board_cells g)"
  by (simp add: board_cells_def)

lemma finite_hidden_cells: "finite (hidden_cells g)"
  by (simp add: hidden_cells_def finite_board_cells)

lemma hidden_cells_iff:
  "(i, j) \<in> hidden_cells g \<longleftrightarrow> is_valid_position g i j \<and> state g i j = CELL_HIDDEN"
  by (simp add: hidden_cells_def board_cells_iff)

lemma place_mines_loop_frame:
  "place_mines_loop rs sr sc g k = Some g' \<Longrightarrow>
     width g' = width g \<and> height g' = height g \<and> state g' = state g"
proof (induction rs sr sc g k rule: place_mines_loop.induct)
  case (1 r1 r2 rs sr sc g k)
  then show ?case by (auto simp: Let_def split: if_splits)
qed (auto split: if_splits)

lemma generate_mines_frame:
  "generate_mines rs sr sc g = Some g' \<Longrightarrow>
     width g' = width g \<and> height g' = height g \<and> state g' = state g"
  by (auto simp: generate_mines_def calculate_numbers_def dest: place_mines_loop_frame)

lemma handle_first_click_frame:
  "handle_first_click rs row col g = Some g' \<Longrightarrow>
     width g' = width g \<and> height g' = height g \<and> state g' = state g"
  by (auto simp: handle_first_click_def split: if_splits dest: generate_mines_frame)

lemma mark_revealed_dims [simp]:
  "width (mark_revealed g row col) = width g" "height (mark_revealed g row col) = height g"
  by (simp_all add: mark_revealed_def set_state_def)

lemma hidden_cells_reveal:
  assumes "is_valid_position g row col" "state g row col = CELL_HIDDEN"
  shows "hidden_cells (mark_revealed g row col) = hidden_cells g - {(row, col)}"
  using assms
  by (auto simp: hidden_cells_def board_cells_def set_state_def mark_revealed_def
                 is_valid_position_def split: if_splits)

lemma hidden_cells_cong:
  "width g' = width g \<Longrightarrow> height g' = height g \<Longrightarrow> state g' = state g \<Longrightarrow>
     hidden_cells g' = hidden_cells g"
  by (simp add: hidden_cells_def board_cells_def)

lemma hidden_cells_game_over_sequence:
  "hidden_cells (game_over_sequence won g) \<subseteq> hidden_cells g"
  by (auto simp: hidden_cells_def board_cells_def game_over_sequence_def Let_def is_valid_position_def)

lemma game_over_sequence_dims [simp]:
  "width (game_over_sequence won g) = width g" "height (game_over_sequence won g) = height g"
  by (simp_all add: game_over_sequence_def Let_def)

lemma reveal_dom_shrinks:
  "reveal_cell_reveal_adjacent_loop_dom (Inl (rs, row, col, g)) \<Longrightarrow>
     reveal_cell rs row col g = Some g' \<Longrightarrow>
     width g' = width g \<and> height g' = height g \<and> hidden_cells g' \<subseteq> hidden_cells g"
  "reveal_cell_reveal_adjacent_loop_dom (Inr (rs, ds, row, col, g)) \<Longrightarrow>
     reveal_adjacent_loop rs ds row col g = Some g' \<Longrightarrow>
     width g' = width g \<and> height g' = height g \<and> hidden_cells g' \<subseteq> hidden_cells g"
proof (induction rs row col g and rs ds row col g arbitrary: g' and g'
       rule: reveal_cell_reveal_adjacent_loop.pinduct)
  case (1 rs row col g)
  show ?case
  proof (cases "\<not> is_valid_position g row col \<or> state g row col \<noteq> CELL_HIDDEN")
    case True
    with 1(1,3) show ?thesis by (simp add: reveal_cell.psimps)
  next
    case False
    from 1(1,3) False obtain g0 where g0: "handle_first_click rs row col g = Some g0"
      by (auto simp: reveal_cell.psimps split: bind_splits)
    then have fr: "width g0 = width g" "height g0 = height g" "state g0 = state g"
      by (auto dest: handle_first_click_frame)
    let ?g1 = "mark_revealed g0 row col"
    have v0: "is_valid_position g0 row col" "state g0 row col = CELL_HIDDEN"
      using False fr by (auto simp: is_valid_position_def)
    have h1: "hidden_cells ?g1 = hidden_cells g - {(row, col)}"
      using hidden_cells_reveal[OF v0] hidden_cells_cong[OF fr] by simp
    have d1: "width ?g1 = width g" "height ?g1 = height g"
      using fr by simp_all
    show ?thesis
    proof (cases "mines ?g1 row col")
      case True
      with 1(1,3) False g0 have "g' = ?g1\<lparr>game_over := True, victory := False\<rparr>"
        by (simp add: reveal_cell.psimps Let_def)
      then have "hidden_cells g' = hidden_cells ?g1" "width g' = width ?g1" "height g' = height ?g1"
        by (simp_all add: hidden_cells_def board_cells_def)
      with h1 d1 show ?thesis by auto
    next
      case nm: False
      from 1(1,3) False g0 nm obtain g2 where
        g2: "(if numbers ?g1 row col = 0
                 then reveal_adjacent_loop rs neighbour_offsets row col ?g1
                 else Some ?g1) = Some g2"
        and g': "g' = (if check_victory g2 then game_over_sequence True g2 else g2)"
        by (auto simp: reveal_cell.psimps Let_def split: bind_splits)
      have "width g2 = width ?g1 \<and> height g2 = height ?g1 \<and> hidden_cells g2 \<subseteq> hidden_cells ?g1"
      proof (cases "numbers ?g1 row col = 0")
        case True
        with g2 have "reveal_adjacent_loop rs neighbour_offsets row col ?g1 = Some g2" by simp
        from 1(2)[OF False g0 refl nm True this] show ?thesis .
      next
        case False
        with g2 show ?thesis by auto
      qed
      moreover have "width g' = width g2 \<and> height g' = height g2 \<and> hidden_cells g' \<subseteq> hidden_cells g2"
        using g' hidden_cells_game_over_sequence[of True g2] by simp
      ultimately show ?thesis using h1 d1 by auto
    qed
  qed
next
  case (2 rs row col g)
  then show ?case by (simp add: reveal_adjacent_loop.psimps)
next
  case (3 rs dr dc ds row col g)
  let ?c = "is_valid_position g (row + dr) (col + dc) \<and> state g (row + dr) (col + dc) = CELL_HIDDEN"
  from 3(1,4) obtain a where
    a: "(if ?c then reveal_cell rs (row + dr) (col + dc) g else Some g) = Some a"
    and rest: "reveal_adjacent_loop rs ds row col a = Some g'"
    by (auto simp: reveal_adjacent_loop.psimps split: bind_splits)
  have "width a = width g \<and> height a = height g \<and> hidden_cells a \<subseteq> hidden_cells g"
  proof (cases ?c)
    case True
    with a have "reveal_cell rs (row + dr) (col + dc) g = Some a" by simp
    from 3(2)[OF True this] show ?thesis .
  next
    case False
    with a show ?thesis by simp
  qed
  moreover from 3(3)[OF a rest]
  have "width g' = width a \<and> height g' = height a \<and> hidden_cells g' \<subseteq> hidden_cells a" .
  ultimately show ?case by auto
qed

termination reveal_cell
proof (relation "measures [\<lambda>x. case x of Inl (rs, row, col, g) \<Rightarrow> card (hidden_cells g)
                                    | Inr (rs, ds, row, col, g) \<Rightarrow> card (hidden_cells g),
                          \<lambda>x. case x of Inl _ \<Rightarrow> 0 | Inr (rs, ds, row, col, g) \<Rightarrow> Suc (length ds)]",
       goal_cases)
  case 1
  show ?case by simp
next
  case (2 rs row col g a x)
  from 2(2) have fr: "width a = width g" "height a = height g" "state a = state g"
    by (auto dest: handle_first_click_frame)
  have v0: "is_valid_position a row col" "state a row col = CELL_HIDDEN"
    using 2(1) fr by (auto simp: is_valid_position_def)
  have "hidden_cells x = hidden_cells g - {(row, col)}"
    unfolding 2(3) using hidden_cells_reveal[OF v0] hidden_cells_cong[OF fr] by simp
  moreover have "(row, col) \<in> hidden_cells g"
    using 2(1) by (simp add: hidden_cells_iff)
  ultimately have "card (hidden_cells x) < card (hidden_cells g)"
    using card_Diff1_less[OF finite_hidden_cells, of "(row, col)" g] by simp
  then show ?case by simp
next
  case (3 rs dr dc ds row col g)
  then show ?case by simp
next
  case (4 rs dr dc ds row col g a)
  have "hidden_cells a \<subseteq> hidden_cells g"
  proof (cases "is_valid_position g (row + dr) (col + dc) \<and> state g (row + dr) (col + dc) = CELL_HIDDEN")
    case True
    with 4 show ?thesis using reveal_dom_shrinks(1) by simp
  next
    case False
    with 4 show ?thesis by simp
  qed
  then have "card (hidden_cells a) \<le> card (hidden_cells g)"
    by (simp add: card_mono finite_hidden_cells)
  then show ?case by auto
qed

section \<open>Configuration validation\<close>

text \<open>
  Claim C6, as the code has it. The custom menu path accepts its three inputs exactly when
  each was read as a number, the width lies between 5 and 30, the height between 5 and 16
  (\<^verbatim>\<open>MAX_HEIGHT\<close> is 16), and the mine count between 1 and \<open>(width * height) div 4\<close>. An
  accepted configuration is an all-hidden, mine-free board with the given dimensions whose
  mines are yet to be placed. A refused one reports the first input that failed: the width
  when it is unreadable or out of range, else the height, else the mine count. It
  produces no board: the grids, the counters and the status flags are as they were, and
  the game differs from the one before only in the fields \<^verbatim>\<open>scanf\<close> had written by then
  (the width, then the height, then the mine count, the refused value included).
\<close>

theorem custom_setup_validation:
  "((\<exists>g'. custom_setup w_in h_in m_in g = Inr g') \<longleftrightarrow>
      (\<exists>w h m. w_in = Some w \<and> h_in = Some h \<and> m_in = Some m \<and>
         5 \<le> w \<and> w \<le> 30 \<and> 5 \<le> h \<and> h \<le> 16 \<and> 1 \<le> m \<and> m \<le> (w * h) div 4))
   \<and> (\<forall>g'. custom_setup w_in h_in m_in g = Inr g' \<longrightarrow>
         w_in = Some (width g') \<and> h_in = Some (height g') \<and> m_in = Some (mine_count g') \<and>
         first_click g' \<and> \<not> game_over g' \<and> revealed_count g' = 0 \<and> flags_placed g' = 0 \<and>
         (\<forall>i j. is_valid_position g' i j \<longrightarrow> \<not> mines g' i j \<and> state g' i j = CELL_HIDDEN))
   \<and> (\<forall>e g'. custom_setup w_in h_in m_in g = Inl (e, g') \<longrightarrow>
         mines g' = mines g \<and> state g' = state g \<and> numbers g' = numbers g \<and>
         revealed_count g' = revealed_count g \<and> flags_placed g' = flags_placed g \<and>
         game_over g' = game_over g \<and> victory g' = victory g \<and> first_click g' = first_click g)
   \<and> (\<forall>g'. custom_setup w_in h_in m_in g = Inl (Invalid_width, g') \<longleftrightarrow>
         \<not> (\<exists>w. w_in = Some w \<and> 5 \<le> w \<and> w \<le> 30) \<and>
         g' = g\<lparr>width := (case w_in of None \<Rightarrow> width g | Some w \<Rightarrow> w)\<rparr>)
   \<and> (\<forall>g'. custom_setup w_in h_in m_in g = Inl (Invalid_height, g') \<longleftrightarrow>
         (\<exists>w. w_in = Some w \<and> 5 \<le> w \<and> w \<le> 30 \<and>
              \<not> (\<exists>h. h_in = Some h \<and> 5 \<le> h \<and> h \<le> 16) \<and>
              g' = g\<lparr>width := w, height := (case h_in of None \<Rightarrow> height g | Some h \<Rightarrow> h)\<rparr>))
   \<and> (\<forall>g'. custom_setup w_in h_in m_in g = Inl (Invalid_mine_count, g') \<longleftrightarrow>
         (\<exists>w h. w_in = Some w \<and> 5 \<le> w \<and> w \<le> 30 \<and> h_in = Some h \<and> 5 \<le> h \<and> h \<le> 16 \<and>
              \<not> (\<exists>m. m_in = Some m \<and> 1 \<le> m \<and> m \<le> (w * h) div 4) \<and>
              g' = g\<lparr>width := w, height := h,
                      mine_count := (case m_in of None \<Rightarrow> mine_count g | Some m \<Rightarrow> m)\<rparr>))"
  by (cases w_in; cases h_in; cases m_in)
     (auto simp: custom_setup_def scanf_int_def Let_def MIN_WIDTH_def MAX_WIDTH_def
                 MIN_HEIGHT_def MAX_HEIGHT_def clear_grids_def reset_counters_def
                 is_valid_position_def)

theorem custom_setup_validation_witness:
  "(\<exists>g'. custom_setup (Some 5) (Some 5) (Some 1) init_minesweeper = Inr g' \<and>
         width g' = 5 \<and> height g' = 5 \<and> mine_count g' = 1 \<and> first_click g' \<and>
         \<not> mines g' 2 2 \<and> state g' 2 2 = CELL_HIDDEN)
   \<and> custom_setup (Some 5) (Some 5) (Some 7) init_minesweeper
         = Inl (Invalid_mine_count, init_minesweeper\<lparr>width := 5, height := 5, mine_count := 7\<rparr>)
   \<and> custom_setup (Some 4) (Some 5) (Some 1) init_minesweeper
         = Inl (Invalid_width, init_minesweeper\<lparr>width := 4\<rparr>)
   \<and> custom_setup (Some 5) None (Some 1) init_minesweeper
         = Inl (Invalid_height, init_minesweeper\<lparr>width := 5, height := 0\<rparr>)"
proof -
  note t = custom_setup_validation[of "Some 5" "Some 5" "Some 1" init_minesweeper]
  note u = custom_setup_validation[of "Some 5" "Some 5" "Some 7" init_minesweeper]
  note v = custom_setup_validation[of "Some 4" "Some 5" "Some 1" init_minesweeper]
  note w = custom_setup_validation[of "Some 5" None "Some 1" init_minesweeper]
  from t obtain g' where g': "custom_setup (Some 5) (Some 5) (Some 1) init_minesweeper = Inr g'"
    by auto
  with t have "width g' = 5 \<and> height g' = 5 \<and> mine_count g' = 1 \<and> first_click g' \<and>
         \<not> mines g' 2 2 \<and> state g' 2 2 = CELL_HIDDEN"
    by (auto simp: is_valid_position_def)
  moreover from u have "custom_setup (Some 5) (Some 5) (Some 7) init_minesweeper
         = Inl (Invalid_mine_count, init_minesweeper\<lparr>width := 5, height := 5, mine_count := 7\<rparr>)"
    by simp
  moreover from v have "custom_setup (Some 4) (Some 5) (Some 1) init_minesweeper
         = Inl (Invalid_width, init_minesweeper\<lparr>width := 4\<rparr>)"
    by simp
  moreover from w have "custom_setup (Some 5) None (Some 1) init_minesweeper
         = Inl (Invalid_height, init_minesweeper\<lparr>width := 5, height := 0\<rparr>)"
    by (simp add: init_minesweeper_def)
  ultimately show ?thesis using g' by blast
qed

text \<open>
  Claim C6 as stated lets the height go up to 30. A height of 20 is refused, whatever the
  other two inputs are; the width 10 and the refused height 20 stay in the structure.
\<close>

theorem custom_setup_height_counterexample:
  "(5::int) \<le> 20 \<and> (20::int) \<le> 30 \<and>
   custom_setup (Some 10) (Some 20) (Some 5) init_minesweeper
     = Inl (Invalid_height, init_minesweeper\<lparr>width := 10, height := 20\<rparr>)"
  by (simp add: custom_setup_def scanf_int_def Let_def MIN_WIDTH_def MAX_WIDTH_def
                 MIN_HEIGHT_def MAX_HEIGHT_def)

section \<open>Mine placement\<close>

lemma mine_cells_iff: "(i, j) \<in> mine_cells g \<longleftrightarrow> is_valid_position g i j \<and> mines g i j"
  by (simp add: mine_cells_def board_cells_iff)

lemma finite_mine_cells: "finite (mine_cells g)"
  by (simp add: mine_cells_def finite_board_cells)

lemma mine_cells_place:
  assumes "is_valid_position g row col"
  shows "mine_cells (g\<lparr>mines := grid_set (mines g) row col True\<rparr>)
           = insert (row, col) (mine_cells g)"
  using assms
  by (auto simp: mine_cells_def board_cells_def is_valid_position_def split: if_splits)

lemma drawn_cells_mines_update [simp]: "drawn_cells (g\<lparr>mines := m\<rparr>) rs = drawn_cells g rs"
  by (induction g rs rule: drawn_cells.induct) auto

lemma place_mines_loop_result:
  assumes "place_mines_loop rs sr sc g k = Some g'" "0 < width g" "0 < height g"
    "k \<le> mine_count g" "\<not> mines g sr sc"
  shows "g' = g\<lparr>mines := mines g'\<rparr> \<and> \<not> mines g' sr sc \<and> mine_cells g \<subseteq> mine_cells g' \<and>
         int (card (mine_cells g')) = int (card (mine_cells g)) + (mine_count g - k)"
  using assms
proof (induction rs sr sc g k rule: place_mines_loop.induct)
  case (1 r1 r2 rs sr sc g k)
  let ?row = "int r1 mod height g" and ?col = "int r2 mod width g"
  show ?case
  proof (cases "k < mine_count g")
    case False
    with 1(3,6,7) show ?thesis by simp
  next
    case lt: True
    have valid: "is_valid_position g ?row ?col"
      using 1(4,5) by (simp add: is_valid_position_def)
    show ?thesis
    proof (cases "(?row = sr \<and> ?col = sc) \<or> mines g ?row ?col")
      case True
      with lt 1(3) have "place_mines_loop rs sr sc g k = Some g'"
        by (simp add: Let_def)
      from 1(1)[OF lt refl refl True this 1(4,5,6,7)] show ?thesis .
    next
      case False
      let ?g = "g\<lparr>mines := grid_set (mines g) ?row ?col True\<rparr>"
      from False lt 1(3) have run: "place_mines_loop rs sr sc ?g (k + 1) = Some g'"
        by (auto simp: Let_def split: if_splits)
      have "\<not> mines ?g sr sc" using False 1(7) by auto
      from 1(2)[OF lt refl refl False run] 1(4,5) lt this
      have ih: "g' = ?g\<lparr>mines := mines g'\<rparr>" "\<not> mines g' sr sc" "mine_cells ?g \<subseteq> mine_cells g'"
        "int (card (mine_cells g')) = int (card (mine_cells ?g)) + (mine_count ?g - (k + 1))"
        by auto
      have mc: "mine_cells ?g = insert (?row, ?col) (mine_cells g)"
        by (rule mine_cells_place[OF valid])
      have "(?row, ?col) \<notin> mine_cells g" using False by (simp add: mine_cells_iff)
      then have "card (mine_cells ?g) = Suc (card (mine_cells g))"
        using mc finite_mine_cells[of g] by simp
      moreover from ih(1) have "g' = g\<lparr>mines := mines g'\<rparr>"
        by (metis MinesweeperGame.update_convs(11) MinesweeperGame.surjective)
      ultimately show ?thesis using ih mc by auto
    qed
  qed
qed (auto split: if_splits)

lemma place_mines_loop_returns:
  assumes "\<not> mines g sr sc"
  shows "(\<exists>g'. place_mines_loop rs sr sc g k = Some g') \<longleftrightarrow>
         mine_count g \<le> k + int (card (set (drawn_cells g rs) - {(sr, sc)} - {(i, j). mines g i j}))"
  using assms
proof (induction rs sr sc g k rule: place_mines_loop.induct)
  case (1 r1 r2 rs sr sc g k)
  let ?row = "int r1 mod height g" and ?col = "int r2 mod width g"
  let ?D = "set (drawn_cells g rs)"
  let ?M = "{(i, j). mines g i j}"
  show ?case
  proof (cases "k < mine_count g")
    case False
    then show ?thesis by simp
  next
    case lt: True
    show ?thesis
    proof (cases "(?row = sr \<and> ?col = sc) \<or> mines g ?row ?col")
      case True
      then have "insert (?row, ?col) ?D - {(sr, sc)} - ?M = ?D - {(sr, sc)} - ?M" by auto
      with 1(1)[OF lt refl refl True 1(3)] lt True show ?thesis
        by (simp add: Let_def)
    next
      case False
      let ?g = "g\<lparr>mines := grid_set (mines g) ?row ?col True\<rparr>"
      have nm: "\<not> mines ?g sr sc" using False 1(3) by auto
      have M': "{(i, j). mines ?g i j} = insert (?row, ?col) ?M"
        by (auto split: if_splits)
      have "insert (?row, ?col) ?D - {(sr, sc)} - ?M
              = insert (?row, ?col) (?D - {(sr, sc)} - insert (?row, ?col) ?M)"
        using False by auto
      moreover have "(?row, ?col) \<notin> ?D - {(sr, sc)} - insert (?row, ?col) ?M" by simp
      ultimately have "card (insert (?row, ?col) ?D - {(sr, sc)} - ?M)
              = Suc (card (?D - {(sr, sc)} - insert (?row, ?col) ?M))"
        by (simp del: Diff_insert_absorb insert_Diff_if)
      with 1(2)[OF lt refl refl False nm] lt False M' show ?thesis
        by (auto simp: Let_def)
    qed
  qed
qed auto


lemma drawn_cells_valid:
  "0 < width g \<Longrightarrow> 0 < height g \<Longrightarrow> (i, j) \<in> set (drawn_cells g rs) \<Longrightarrow> is_valid_position g i j"
  by (induction g rs rule: drawn_cells.induct) (auto simp: is_valid_position_def)

lemma calculate_numbers_mine_cells [simp]: "mine_cells (calculate_numbers g) = mine_cells g"
  by (simp add: mine_cells_def board_cells_def calculate_numbers_def)

lemma setup_beginner_facts:
  "width (setup_difficulty DIFFICULTY_BEGINNER g) = 9"
  "height (setup_difficulty DIFFICULTY_BEGINNER g) = 9"
  "mine_count (setup_difficulty DIFFICULTY_BEGINNER g) = 10"
  "mine_cells (setup_difficulty DIFFICULTY_BEGINNER g) = {}"
  by (auto simp: clear_grids_def reset_counters_def mine_cells_def board_cells_def
                 is_valid_position_def)

text \<open>
  Claim C1. On a board without mines, with the first click \<open>(r, c)\<close> in bounds,
  \<^verbatim>\<open>generate_mines\<close> returns exactly when the numbers drawn name at least \<open>mine_count\<close>
  different cells other than \<open>(r, c)\<close>; what it returns has exactly \<open>mine_count\<close> cells
  with a mine and none at \<open>(r, c)\<close>, on the same board with the same cell states.
\<close>

theorem generate_mines_safe_first_click:
  assumes "0 < width g" "0 < height g" "0 \<le> mine_count g" "mine_cells g = {}"
    "is_valid_position g r c"
  shows "((\<exists>g'. generate_mines rs r c g = Some g') \<longleftrightarrow>
            mine_count g \<le> int (card (set (drawn_cells g rs) - {(r, c)})))
       \<and> (\<forall>g'. generate_mines rs r c g = Some g' \<longrightarrow>
            int (card (mine_cells g')) = mine_count g \<and> (r, c) \<notin> mine_cells g' \<and>
            \<not> mines g' r c \<and> board_cells g' = board_cells g \<and> state g' = state g)"
proof -
  have nm: "\<not> mines g r c"
  proof
    assume "mines g r c"
    with assms(5) have "(r, c) \<in> mine_cells g" by (simp add: mine_cells_iff)
    with assms(4) show False by simp
  qed
  have "set (drawn_cells g rs) - {(r, c)} - {(i, j). mines g i j} = set (drawn_cells g rs) - {(r, c)}"
    using drawn_cells_valid[OF assms(1,2), of _ _ rs] assms(4) mine_cells_iff[of _ _ g] by blast
  with place_mines_loop_returns[OF nm, of rs 0]
  have "(\<exists>g'. place_mines_loop rs r c g 0 = Some g') \<longleftrightarrow>
            mine_count g \<le> int (card (set (drawn_cells g rs) - {(r, c)}))"
    by simp
  then have ret: "(\<exists>g'. generate_mines rs r c g = Some g') \<longleftrightarrow>
            mine_count g \<le> int (card (set (drawn_cells g rs) - {(r, c)}))"
    by (simp add: generate_mines_def)
  have res: "int (card (mine_cells g')) = mine_count g \<and> (r, c) \<notin> mine_cells g' \<and>
            \<not> mines g' r c \<and> board_cells g' = board_cells g \<and> state g' = state g"
    if "generate_mines rs r c g = Some g'" for g'
  proof -
    from that obtain p where p: "place_mines_loop rs r c g 0 = Some p" and g': "g' = calculate_numbers p"
      by (auto simp: generate_mines_def)
    from place_mines_loop_result[OF p assms(1,2,3) nm] assms(4)
    have "\<not> mines p r c" "int (card (mine_cells p)) = mine_count g" by auto
    moreover from generate_mines_frame[OF that] have "board_cells g' = board_cells g" "state g' = state g"
      by (simp_all add: board_cells_def)
    ultimately show ?thesis
      using g' by (simp add: mine_cells_iff) (simp add: calculate_numbers_def)
  qed
  from ret res show ?thesis by blast
qed

theorem generate_mines_safe_first_click_witness:
  "\<exists>g'. generate_mines [0,0, 4,4, 0,1, 0,2, 9,0, 0,3, 0,4, 0,5, 0,6, 0,7, 0,8, 1,0] 4 4
          (setup_difficulty DIFFICULTY_BEGINNER init_minesweeper) = Some g'
        \<and> int (card (mine_cells g')) = 10 \<and> \<not> mines g' 4 4 \<and> (4, 4) \<notin> mine_cells g'"
proof -
  let ?g = "setup_difficulty DIFFICULTY_BEGINNER init_minesweeper"
  let ?rs = "[0,0, 4,4, 0,1, 0,2, 9,0, 0,3, 0,4, 0,5, 0,6, 0,7, 0,8, 1,0] :: nat list"
  have h: "0 < width ?g" "0 < height ?g" "0 \<le> mine_count ?g" "mine_cells ?g = {}"
    "is_valid_position ?g 4 4"
    by (simp_all add: setup_beginner_facts is_valid_position_def del: setup_difficulty.simps)
  have d: "mine_count ?g \<le> int (card (set (drawn_cells ?g ?rs) - {(4, 4)}))"
    by (simp add: setup_beginner_facts card_insert_if del: setup_difficulty.simps)
  from generate_mines_safe_first_click[OF h, of ?rs] d show ?thesis
    by (auto simp: setup_beginner_facts simp del: setup_difficulty.simps)
qed

section \<open>Invariants of the cascade\<close>

lemma revealed_cells_iff:
  "(i, j) \<in> revealed_cells g \<longleftrightarrow> is_valid_position g i j \<and> state g i j = CELL_REVEALED"
  by (simp add: revealed_cells_def board_cells_iff)

lemma finite_revealed_cells: "finite (revealed_cells g)"
  by (simp add: revealed_cells_def finite_board_cells)

lemma card_board_cells: "0 \<le> width g \<Longrightarrow> 0 \<le> height g \<Longrightarrow> int (card (board_cells g)) = width g * height g"
  by (simp add: board_cells_def mult.commute)

lemma mine_cells_subset: "mine_cells g \<subseteq> board_cells g"
  by (auto simp: mine_cells_def)

lemma revealed_cells_subset: "revealed_cells g \<subseteq> board_cells g"
  by (auto simp: revealed_cells_def)

lemma count_loop_filter:
  "count_loop g row col ds k =
     k + int (length (filter (\<lambda>(dr, dc). is_valid_position g (row + dr) (col + dc)
                                      \<and> mines g (row + dr) (col + dc)) ds))"
  by (induction g row col ds k rule: count_loop.induct) auto

lemma zero_count_no_mine:
  assumes "count_adjacent_mines g row col = 0" "(dr, dc) \<in> set neighbour_offsets"
    "is_valid_position g (row + dr) (col + dc)"
  shows "\<not> mines g (row + dr) (col + dc)"
proof
  assume "mines g (row + dr) (col + dc)"
  with assms(2,3) have "(dr, dc) \<in> set (filter (\<lambda>(dr, dc). is_valid_position g (row + dr) (col + dc)
                                      \<and> mines g (row + dr) (col + dc)) neighbour_offsets)"
    by simp
  then have "filter (\<lambda>(dr, dc). is_valid_position g (row + dr) (col + dc)
                                      \<and> mines g (row + dr) (col + dc)) neighbour_offsets \<noteq> []"
    by (metis empty_iff list.set(1))
  with assms(1) show False
    by (simp add: count_adjacent_mines_def count_loop_filter)
qed

lemma mark_revealed_fields [simp]:
  "mines (mark_revealed g row col) = mines g"
  "numbers (mark_revealed g row col) = numbers g"
  "mine_count (mark_revealed g row col) = mine_count g"
  "flags_placed (mark_revealed g row col) = flags_placed g"
  "first_click (mark_revealed g row col) = first_click g"
  "game_over (mark_revealed g row col) = game_over g"
  "victory (mark_revealed g row col) = victory g"
  "revealed_count (mark_revealed g row col) = revealed_count g + 1"
  "state (mark_revealed g row col) i j = (if i = row \<and> j = col then CELL_REVEALED else state g i j)"
  by (simp_all add: mark_revealed_def set_state_def)

lemma game_over_sequence_fields [simp]:
  "mines (game_over_sequence w g) = mines g"
  "numbers (game_over_sequence w g) = numbers g"
  "mine_count (game_over_sequence w g) = mine_count g"
  "flags_placed (game_over_sequence w g) = flags_placed g"
  "first_click (game_over_sequence w g) = first_click g"
  "game_over (game_over_sequence w g) = True"
  "victory (game_over_sequence w g) = w"
  "revealed_count (game_over_sequence w g) = revealed_count g"
  "state (game_over_sequence w g) i j =
     (if is_valid_position g i j \<and> mines g i j then CELL_REVEALED else state g i j)"
  by (auto simp: game_over_sequence_def Let_def is_valid_position_def)

lemma is_valid_position_cong:
  "width g' = width g \<Longrightarrow> height g' = height g \<Longrightarrow> is_valid_position g' = is_valid_position g"
  by (intro ext) (simp add: is_valid_position_def)

lemma is_valid_position_simps [simp]:
  "is_valid_position (game_over_sequence w g) = is_valid_position g"
  "is_valid_position (mark_revealed g row col) = is_valid_position g"
  by (rule is_valid_position_cong; simp)+

lemma board_cells_cong: "width g' = width g \<Longrightarrow> height g' = height g \<Longrightarrow> board_cells g' = board_cells g"
  by (simp add: board_cells_def)

lemma mine_cells_cong:
  "width g' = width g \<Longrightarrow> height g' = height g \<Longrightarrow> mines g' = mines g \<Longrightarrow> mine_cells g' = mine_cells g"
  by (simp add: mine_cells_def board_cells_def)

lemma count_adjacent_mines_cong:
  "width g' = width g \<Longrightarrow> height g' = height g \<Longrightarrow> mines g' = mines g \<Longrightarrow>
     count_adjacent_mines g' = count_adjacent_mines g"
  by (intro ext) (simp add: count_adjacent_mines_def count_loop_filter is_valid_position_def)

lemma numbers_ok_cong:
  "width g' = width g \<Longrightarrow> height g' = height g \<Longrightarrow> mines g' = mines g \<Longrightarrow> numbers g' = numbers g \<Longrightarrow>
     numbers_ok g' = numbers_ok g"
  using board_cells_cong[of g' g] count_adjacent_mines_cong[of g' g] by (simp add: numbers_ok_def)

lemma revealed_cells_mark:
  "is_valid_position g row col \<Longrightarrow>
     revealed_cells (mark_revealed g row col) = insert (row, col) (revealed_cells g)"
  by (auto simp: revealed_cells_def board_cells_def is_valid_position_def split: if_splits)

lemma revealed_cells_game_over_sequence:
  "revealed_cells (game_over_sequence w g) = revealed_cells g \<union> mine_cells g"
  by (auto simp: revealed_cells_def mine_cells_def board_cells_iff split: if_splits)

lemma check_victory_cong:
  "width g' = width g \<Longrightarrow> height g' = height g \<Longrightarrow> mine_count g' = mine_count g \<Longrightarrow>
     revealed_count g' = revealed_count g \<Longrightarrow> check_victory g' = check_victory g"
  by (simp add: check_victory_def)

lemma cascade_inv_not_over:
  assumes "cascade_inv g" "is_valid_position g row col" "state g row col \<noteq> CELL_REVEALED"
  shows "\<not> game_over g"
proof
  assume "game_over g"
  with assms(1) have "revealed_cells g = board_cells g" by (simp add: cascade_inv_def)
  with assms(2) have "(row, col) \<in> revealed_cells g" by (simp add: board_cells_iff)
  with assms(3) show False by (simp add: revealed_cells_iff)
qed

lemma cascade_inv_mark:
  assumes "cascade_inv g" "is_valid_position g row col" "state g row col = CELL_HIDDEN"
    "\<not> mines g row col"
  shows "cascade_inv (mark_revealed g row col)"
proof -
  let ?g = "mark_revealed g row col"
  have no: "\<not> game_over g" using cascade_inv_not_over[OF assms(1,2)] assms(3) by simp
  have mc: "mine_cells ?g = mine_cells g" by (rule mine_cells_cong) simp_all
  have rc: "revealed_cells ?g = insert (row, col) (revealed_cells g)"
    by (rule revealed_cells_mark[OF assms(2)])
  have notin: "(row, col) \<notin> revealed_cells g" "(row, col) \<notin> mine_cells g"
    using assms(3,4) by (simp_all add: revealed_cells_iff mine_cells_iff)
  then have "revealed_cells ?g - mine_cells ?g = insert (row, col) (revealed_cells g - mine_cells g)"
    using mc rc by auto
  then have "card (revealed_cells ?g - mine_cells ?g) = Suc (card (revealed_cells g - mine_cells g))"
    using notin finite_revealed_cells[of g] by simp
  moreover have "numbers_ok ?g = numbers_ok g" by (rule numbers_ok_cong) simp_all
  moreover have "revealed_cells ?g \<inter> mine_cells ?g = {}"
    using assms(1) no notin mc rc by (auto simp: cascade_inv_def)
  ultimately show ?thesis
    using assms(1) no mc by (simp add: cascade_inv_def)
qed

lemma cascade_inv_all_safe_revealed:
  assumes "cascade_inv g" "check_victory g"
  shows "revealed_cells g - mine_cells g = board_cells g - mine_cells g"
proof -
  from assms(1) have pos: "0 \<le> width g" "0 \<le> height g" by (simp_all add: cascade_inv_def)
  have "int (card (board_cells g - mine_cells g)) = width g * height g - mine_count g"
    using card_Diff_subset[OF finite_mine_cells mine_cells_subset, of g] card_board_cells[OF pos]
      card_mono[OF finite_board_cells mine_cells_subset, of g] assms(1)
    by (simp add: cascade_inv_def)
  with assms have "card (revealed_cells g - mine_cells g) = card (board_cells g - mine_cells g)"
    by (simp add: cascade_inv_def check_victory_def)
  moreover have "revealed_cells g - mine_cells g \<subseteq> board_cells g - mine_cells g"
    using revealed_cells_subset by auto
  ultimately show ?thesis
    using card_subset_eq[of "board_cells g - mine_cells g"] finite_board_cells[of g] by blast
qed

lemma cascade_inv_finish:
  assumes "cascade_inv g"
  shows "cascade_inv (if check_victory g then game_over_sequence True g else g)"
proof (cases "check_victory g")
  case False
  with assms show ?thesis by simp
next
  case True
  let ?g = "game_over_sequence True g"
  have mc: "mine_cells ?g = mine_cells g" by (rule mine_cells_cong) simp_all
  have rc: "revealed_cells ?g = revealed_cells g \<union> mine_cells g"
    by (rule revealed_cells_game_over_sequence)
  have all: "revealed_cells g - mine_cells g = board_cells g - mine_cells g"
    by (rule cascade_inv_all_safe_revealed[OF assms True])
  have "revealed_cells ?g = board_cells g"
    using rc all mine_cells_subset[of g] revealed_cells_subset[of g] by blast
  moreover have "revealed_cells ?g - mine_cells ?g = revealed_cells g - mine_cells g"
    using rc mc by auto
  moreover have "numbers_ok ?g = numbers_ok g" by (rule numbers_ok_cong) simp_all
  moreover have "check_victory ?g" using True by (simp add: check_victory_def)
  moreover have "board_cells ?g = board_cells g" by (rule board_cells_cong) simp_all
  ultimately show ?thesis
    using assms True mc by (simp add: cascade_inv_def)
qed

lemma handle_first_click_later [simp]:
  "\<not> first_click g \<Longrightarrow> handle_first_click rs row col g = Some g"
  by (simp add: handle_first_click_def)

declare reveal_cell.simps [simp del]

lemma reveal_cell_rejected:
  "\<not> is_valid_position g row col \<or> state g row col \<noteq> CELL_HIDDEN \<Longrightarrow> reveal_cell rs row col g = Some g"
  by (simp add: reveal_cell.simps)

lemma reveal_cell_accepted:
  "is_valid_position g row col \<Longrightarrow> state g row col = CELL_HIDDEN \<Longrightarrow>
     handle_first_click rs row col g = Some g0 \<Longrightarrow>
     reveal_cell rs row col g =
       (if mines g0 row col
        then Some ((mark_revealed g0 row col)\<lparr>game_over := True, victory := False\<rparr>)
        else (if numbers g0 row col = 0
              then reveal_adjacent_loop rs neighbour_offsets row col (mark_revealed g0 row col)
              else Some (mark_revealed g0 row col))
             \<bind> (\<lambda>g2. Some (if check_victory g2 then game_over_sequence True g2 else g2)))"
  by (simp add: reveal_cell.simps mark_revealed_def set_state_def)

lemma reveal_cell_stuck:
  "is_valid_position g row col \<Longrightarrow> state g row col = CELL_HIDDEN \<Longrightarrow>
     handle_first_click rs row col g = None \<Longrightarrow> reveal_cell rs row col g = None"
  by (simp add: reveal_cell.simps)

lemma reveal_cell_SomeE:
  assumes "reveal_cell rs row col g = Some g'"
  obtains
    (rejected) "\<not> is_valid_position g row col \<or> state g row col \<noteq> CELL_HIDDEN" "g' = g"
  | (mine) g0 where "is_valid_position g row col" "state g row col = CELL_HIDDEN"
      "handle_first_click rs row col g = Some g0" "mines g0 row col"
      "g' = (mark_revealed g0 row col)\<lparr>game_over := True, victory := False\<rparr>"
  | (number) g0 where "is_valid_position g row col" "state g row col = CELL_HIDDEN"
      "handle_first_click rs row col g = Some g0" "\<not> mines g0 row col" "numbers g0 row col \<noteq> 0"
      "g' = (if check_victory (mark_revealed g0 row col)
             then game_over_sequence True (mark_revealed g0 row col) else mark_revealed g0 row col)"
  | (cascade) g0 g2 where "is_valid_position g row col" "state g row col = CELL_HIDDEN"
      "handle_first_click rs row col g = Some g0" "\<not> mines g0 row col" "numbers g0 row col = 0"
      "reveal_adjacent_loop rs neighbour_offsets row col (mark_revealed g0 row col) = Some g2"
      "g' = (if check_victory g2 then game_over_sequence True g2 else g2)"
proof (cases "\<not> is_valid_position g row col \<or> state g row col \<noteq> CELL_HIDDEN")
  case True
  with assms have "g' = g" by (simp add: reveal_cell_rejected)
  with True show ?thesis by (rule rejected)
next
  case False
  then have v: "is_valid_position g row col" and h: "state g row col = CELL_HIDDEN" by auto
  from assms v h obtain g0 where g0: "handle_first_click rs row col g = Some g0"
    using reveal_cell_stuck[OF v h] by (cases "handle_first_click rs row col g") auto
  note eq = reveal_cell_accepted[OF v h g0]
  show ?thesis
  proof (cases "mines g0 row col")
    case True
    with assms eq have "g' = (mark_revealed g0 row col)\<lparr>game_over := True, victory := False\<rparr>"
      by simp
    with v h g0 True show ?thesis by (rule mine)
  next
    case nm: False
    show ?thesis
    proof (cases "numbers g0 row col = 0")
      case True
      with assms eq nm obtain g2 where
        l: "reveal_adjacent_loop rs neighbour_offsets row col (mark_revealed g0 row col) = Some g2"
        and e: "g' = (if check_victory g2 then game_over_sequence True g2 else g2)"
        by (auto split: bind_splits)
      from v h g0 nm True l e show ?thesis by (rule cascade)
    next
      case nz: False
      with assms eq nm
      have "g' = (if check_victory (mark_revealed g0 row col)
             then game_over_sequence True (mark_revealed g0 row col) else mark_revealed g0 row col)"
        by auto
      with v h g0 nm nz show ?thesis by (rule number)
    qed
  qed
qed

lemma reveal_adjacent_loop_ConsE:
  assumes "reveal_adjacent_loop rs ((dr, dc) # ds) row col g = Some g'"
  obtains
    (skip) "\<not> (is_valid_position g (row + dr) (col + dc) \<and> state g (row + dr) (col + dc) = CELL_HIDDEN)"
      "reveal_adjacent_loop rs ds row col g = Some g'"
  | (call) a where "is_valid_position g (row + dr) (col + dc)"
      "state g (row + dr) (col + dc) = CELL_HIDDEN"
      "reveal_cell rs (row + dr) (col + dc) g = Some a"
      "reveal_adjacent_loop rs ds row col a = Some g'"
  using assms by (auto split: bind_splits if_splits)

lemma same_board_refl [simp]: "same_board g g"
  by (simp add: same_board_def)

lemma same_board_trans: "same_board g a \<Longrightarrow> same_board a g' \<Longrightarrow> same_board g g'"
  by (simp add: same_board_def)

lemma same_board_mark [simp]: "same_board g (mark_revealed g row col)"
  by (simp add: same_board_def)

lemma same_board_finish [simp]:
  "same_board g (if check_victory g then game_over_sequence True g else g)"
  by (simp add: same_board_def)

lemma same_board_valid: "same_board g g' \<Longrightarrow> is_valid_position g' = is_valid_position g"
  by (rule is_valid_position_cong) (simp_all add: same_board_def)

lemma cascade_inv_total:
  "cascade_inv g \<Longrightarrow>
     (is_valid_position g row col \<and> state g row col = CELL_HIDDEN \<longrightarrow> \<not> mines g row col) \<Longrightarrow>
     \<exists>g'. reveal_cell rs row col g = Some g' \<and> cascade_inv g' \<and> same_board g g' \<and>
          (is_valid_position g row col \<and> state g row col = CELL_HIDDEN \<and> check_victory g'
             \<longrightarrow> game_over g')"
  "cascade_inv g \<Longrightarrow>
     (\<forall>(dr, dc) \<in> set ds. is_valid_position g (row + dr) (col + dc)
         \<longrightarrow> \<not> mines g (row + dr) (col + dc)) \<Longrightarrow>
     \<exists>g'. reveal_adjacent_loop rs ds row col g = Some g' \<and> cascade_inv g' \<and> same_board g g'"
proof (induction rs row col g and rs ds row col g rule: reveal_cell_reveal_adjacent_loop.induct)
  case (1 rs row col g)
  show ?case
  proof (cases "\<not> is_valid_position g row col \<or> state g row col \<noteq> CELL_HIDDEN")
    case True
    with 1(2) show ?thesis by (auto simp: reveal_cell_rejected)
  next
    case False
    then have v: "is_valid_position g row col" and h: "state g row col = CELL_HIDDEN" by auto
    with 1(3) have nm: "\<not> mines g row col" by simp
    from 1(2) have nf: "\<not> first_click g" by (simp add: cascade_inv_def)
    let ?g1 = "mark_revealed g row col"
    have inv1: "cascade_inv ?g1" by (rule cascade_inv_mark[OF 1(2) v h nm])
    have "\<exists>g2. (if numbers ?g1 row col = 0
                 then reveal_adjacent_loop rs neighbour_offsets row col ?g1
                 else Some ?g1) = Some g2 \<and> cascade_inv g2 \<and> same_board ?g1 g2"
    proof (cases "numbers ?g1 row col = 0")
      case True
      have "count_adjacent_mines g row col = 0"
        using 1(2) v nm True by (auto simp: cascade_inv_def numbers_ok_def board_cells_iff)
      then have "\<forall>(dr, dc) \<in> set neighbour_offsets. is_valid_position ?g1 (row + dr) (col + dc)
         \<longrightarrow> \<not> mines ?g1 (row + dr) (col + dc)"
        using zero_count_no_mine[of g row col] by auto
      from 1(1)[OF False _ refl _ True inv1 this] nf nm True show ?thesis by simp
    next
      case False
      with inv1 show ?thesis by simp
    qed
    then obtain g2 where g2: "(if numbers ?g1 row col = 0
                 then reveal_adjacent_loop rs neighbour_offsets row col ?g1
                 else Some ?g1) = Some g2" and inv2: "cascade_inv g2" and sb2: "same_board ?g1 g2"
      by blast
    let ?g' = "if check_victory g2 then game_over_sequence True g2 else g2"
    have "reveal_cell rs row col g = Some ?g'"
      using reveal_cell_accepted[OF v h handle_first_click_later[OF nf]] nm g2 by simp
    moreover have "cascade_inv ?g'" by (rule cascade_inv_finish[OF inv2])
    moreover have "same_board g ?g'"
      using same_board_trans[OF same_board_mark sb2] same_board_trans same_board_finish by blast
    moreover have "check_victory ?g' \<longrightarrow> game_over ?g'"
      by (simp add: check_victory_def)
    ultimately show ?thesis by blast
  qed
next
  case (2 rs row col g)
  then show ?case by simp
next
  case (3 rs dr dc ds row col g)
  let ?c = "is_valid_position g (row + dr) (col + dc) \<and> state g (row + dr) (col + dc) = CELL_HIDDEN"
  have "\<exists>a. (if ?c then reveal_cell rs (row + dr) (col + dc) g else Some g) = Some a
           \<and> cascade_inv a \<and> same_board g a"
  proof (cases ?c)
    case True
    with 3(4) have "\<not> mines g (row + dr) (col + dc)" by auto
    with 3(1)[OF True 3(3)] True show ?thesis by auto
  next
    case False
    with 3(3) show ?thesis by auto
  qed
  then obtain a where a: "(if ?c then reveal_cell rs (row + dr) (col + dc) g else Some g) = Some a"
    and inva: "cascade_inv a" and sba: "same_board g a" by blast
  have "\<forall>(dr, dc) \<in> set ds. is_valid_position a (row + dr) (col + dc)
         \<longrightarrow> \<not> mines a (row + dr) (col + dc)"
    using 3(4) sba same_board_valid[OF sba] by (auto simp: same_board_def)
  from 3(2)[OF a inva this] obtain g' where
    "reveal_adjacent_loop rs ds row col a = Some g'" "cascade_inv g'" "same_board a g'" by blast
  with a sba show ?case
    using same_board_trans by (auto split: bind_splits)
qed

lemma calculate_numbers_ok: "numbers_ok (calculate_numbers g)"
proof -
  have "count_adjacent_mines (calculate_numbers g) = count_adjacent_mines g"
    by (rule count_adjacent_mines_cong) (simp_all add: calculate_numbers_def)
  moreover have "board_cells (calculate_numbers g) = board_cells g"
    by (rule board_cells_cong) (simp_all add: calculate_numbers_def)
  ultimately show ?thesis
    by (auto simp: numbers_ok_def board_cells_iff) (simp add: calculate_numbers_def)
qed

lemma place_mines_loop_fields:
  assumes "place_mines_loop rs sr sc g k = Some g'"
  shows "width g' = width g" "height g' = height g" "state g' = state g"
    "mine_count g' = mine_count g" "revealed_count g' = revealed_count g"
    "flags_placed g' = flags_placed g" "game_over g' = game_over g" "victory g' = victory g"
    "first_click g' = first_click g"
  using assms
  by (induction rs sr sc g k rule: place_mines_loop.induct; simp add: Let_def split: if_splits)+

lemma generate_mines_fields:
  assumes "generate_mines rs sr sc g = Some g'"
  shows "width g' = width g" "height g' = height g" "state g' = state g"
    "mine_count g' = mine_count g" "revealed_count g' = revealed_count g"
    "flags_placed g' = flags_placed g" "game_over g' = game_over g" "victory g' = victory g"
    "first_click g' = first_click g"
  using assms place_mines_loop_fields[of rs sr sc g 0]
  by (auto simp: generate_mines_def calculate_numbers_def)

lemma generate_mines_result:
  assumes "generate_mines rs r c g = Some g'" "0 < width g" "0 < height g" "0 \<le> mine_count g"
    "mine_cells g = {}" "is_valid_position g r c"
  shows "int (card (mine_cells g')) = mine_count g" "\<not> mines g' r c" "numbers_ok g'"
proof -
  have nm: "\<not> mines g r c"
  proof
    assume "mines g r c"
    with assms(6) have "(r, c) \<in> mine_cells g" by (simp add: mine_cells_iff)
    with assms(5) show False by simp
  qed
  from assms(1) obtain p where p: "place_mines_loop rs r c g 0 = Some p" and g': "g' = calculate_numbers p"
    by (auto simp: generate_mines_def)
  from place_mines_loop_result[OF p assms(2,3,4) nm] assms(5)
  have r: "\<not> mines p r c" "int (card (mine_cells p)) = mine_count g" by auto
  from r(2) g' show "int (card (mine_cells g')) = mine_count g" by simp
  from r(1) g' show "\<not> mines g' r c" by (simp add: calculate_numbers_def)
  from g' show "numbers_ok g'" by (simp add: calculate_numbers_ok)
qed

lemma cascade_inv_count_bound:
  assumes "cascade_inv g"
  shows "0 \<le> revealed_count g" "revealed_count g \<le> width g * height g - mine_count g"
proof -
  from assms have pos: "0 \<le> width g" "0 \<le> height g" by (simp_all add: cascade_inv_def)
  have "int (card (board_cells g - mine_cells g)) = width g * height g - mine_count g"
    using card_Diff_subset[OF finite_mine_cells mine_cells_subset, of g] card_board_cells[OF pos]
      card_mono[OF finite_board_cells mine_cells_subset, of g] assms
    by (simp add: cascade_inv_def)
  moreover have "card (revealed_cells g - mine_cells g) \<le> card (board_cells g - mine_cells g)"
    using revealed_cells_subset[of g] finite_board_cells[of g] by (intro card_mono) auto
  ultimately show "revealed_count g \<le> width g * height g - mine_count g"
    using assms by (simp add: cascade_inv_def)
  show "0 \<le> revealed_count g" using assms by (simp add: cascade_inv_def)
qed

lemma configured_session_inv:
  assumes "configured g"
  shows "session_inv g"
proof -
  from assms have w: "5 \<le> width g" and h: "5 \<le> height g"
    by (simp_all add: configured_def MIN_WIDTH_def MIN_HEIGHT_def)
  have "5 * 5 \<le> width g * height g"
    using w h by (intro mult_mono) simp_all
  then have n: "(width g * height g) div 4 \<le> width g * height g" by simp
  have "revealed_cells g = {}"
  proof -
    have "revealed_cells g \<inter> hidden_cells g = {}"
      by (auto simp: revealed_cells_def hidden_cells_def)
    moreover have "revealed_cells g \<subseteq> board_cells g" by (rule revealed_cells_subset)
    ultimately show ?thesis using assms by (auto simp: configured_def)
  qed
  with assms w h n show ?thesis
    by (simp add: configured_def session_inv_def)
qed

lemma toggle_flag_fields [simp]:
  "width (toggle_flag row col g) = width g"
  "height (toggle_flag row col g) = height g"
  "mine_count (toggle_flag row col g) = mine_count g"
  "mines (toggle_flag row col g) = mines g"
  "numbers (toggle_flag row col g) = numbers g"
  "revealed_count (toggle_flag row col g) = revealed_count g"
  "first_click (toggle_flag row col g) = first_click g"
  "game_over (toggle_flag row col g) = game_over g"
  "victory (toggle_flag row col g) = victory g"
  by (simp_all add: toggle_flag_def set_state_def)

lemma toggle_flag_revealed:
  "state (toggle_flag row col g) i j = CELL_REVEALED \<longleftrightarrow> state g i j = CELL_REVEALED"
  by (auto simp: toggle_flag_def set_state_def split: if_splits)

lemma toggle_flag_flags_placed:
  "flags_placed g \<le> mine_count g \<Longrightarrow> flags_placed (toggle_flag row col g) \<le> mine_count g"
  by (simp add: toggle_flag_def set_state_def)

lemma revealed_cells_toggle [simp]: "revealed_cells (toggle_flag row col g) = revealed_cells g"
  by (auto simp: revealed_cells_def board_cells_def toggle_flag_revealed)

lemma mine_cells_toggle [simp]: "mine_cells (toggle_flag row col g) = mine_cells g"
  by (rule mine_cells_cong) simp_all

lemma board_cells_toggle [simp]: "board_cells (toggle_flag row col g) = board_cells g"
  by (rule board_cells_cong) simp_all

lemma numbers_ok_toggle [simp]: "numbers_ok (toggle_flag row col g) = numbers_ok g"
  by (rule numbers_ok_cong) simp_all

lemma check_victory_toggle [simp]: "check_victory (toggle_flag row col g) = check_victory g"
  by (simp add: check_victory_def)

lemma cascade_inv_toggle [simp]: "cascade_inv (toggle_flag row col g) = cascade_inv g"
  by (simp add: cascade_inv_def)

lemma session_inv_toggle: "session_inv g \<Longrightarrow> session_inv (toggle_flag row col g)"
  by (simp add: session_inv_def toggle_flag_flags_placed)

lemma first_click_cascade_inv:
  assumes "session_inv g" "first_click g" "is_valid_position g row col"
    "handle_first_click rs row col g = Some g0"
  shows "cascade_inv g0" "\<not> mines g0 row col" "\<not> check_victory g0" "state g0 = state g"
    "flags_placed g0 = flags_placed g" "mine_count g0 = mine_count g" "width g0 = width g"
    "height g0 = height g"
proof -
  from assms(2,4) obtain gm where gm: "generate_mines rs row col g = Some gm"
    and g0: "g0 = gm\<lparr>first_click := False\<rparr>"
    by (auto simp: handle_first_click_def)
  from assms(1,2) have pre: "0 < width g" "0 < height g" "0 \<le> mine_count g" "mine_cells g = {}"
    and rc: "revealed_count g = 0" "revealed_cells g = {}" "\<not> game_over g"
    and mc: "1 \<le> mine_count g" "mine_count g \<le> (width g * height g) div 4"
    by (simp_all add: session_inv_def)
  note res = generate_mines_result[OF gm pre assms(3)]
  note fr = generate_mines_fields[OF gm]
  have bc: "board_cells g0 = board_cells g" using fr g0 by (simp add: board_cells_def)
  have mc0: "mine_cells g0 = mine_cells gm" using g0 by (simp add: mine_cells_def board_cells_def)
  have rv0: "revealed_cells g0 = revealed_cells g"
    using g0 fr by (simp add: revealed_cells_def board_cells_def)
  have no: "numbers_ok g0 = numbers_ok gm"
    by (rule numbers_ok_cong) (simp_all add: g0)
  show "cascade_inv g0"
    using pre rc res(1,3) fr mc0 rv0 no by (simp add: cascade_inv_def g0)
  show "\<not> mines g0 row col" using res(2) by (simp add: g0)
  have "0 < width g * height g" using pre(1,2) by simp
  then have "(width g * height g) div 4 < width g * height g" by linarith
  then show "\<not> check_victory g0"
    using rc mc fr by (simp add: check_victory_def g0)
  show "state g0 = state g" "flags_placed g0 = flags_placed g" "mine_count g0 = mine_count g"
    "width g0 = width g" "height g0 = height g"
    using fr by (simp_all add: g0)
qed

lemma reveal_cell_after_first_click:
  assumes "is_valid_position g row col" "state g row col = CELL_HIDDEN"
    "handle_first_click rs row col g = Some g0" "\<not> first_click g0"
    "width g0 = width g" "height g0 = height g" "state g0 = state g"
  shows "reveal_cell rs row col g = reveal_cell rs row col g0"
proof -
  have v: "is_valid_position g0 row col" "state g0 row col = CELL_HIDDEN"
    using assms by (simp_all add: is_valid_position_def)
  show ?thesis
    unfolding reveal_cell_accepted[OF assms(1,2,3)]
      reveal_cell_accepted[OF v handle_first_click_later[OF assms(4)]] ..
qed

lemma handle_first_click_not_first:
  "handle_first_click rs row col g = Some g0 \<Longrightarrow> \<not> first_click g0"
  by (auto simp: handle_first_click_def split: if_splits)

text \<open>A reveal from a running game whose mines are placed: it returns, and the game it
  returns is lost when the cell held a mine and satisfies the cascade invariant otherwise.\<close>

lemma reveal_running:
  assumes "cascade_inv g" "\<not> check_victory g" "\<not> game_over g"
    "is_valid_position g row col" "state g row col = CELL_HIDDEN"
  shows "\<exists>g'. reveal_cell rs row col g = Some g' \<and> same_board g g' \<and>
           (if mines g row col
            then g' = (mark_revealed g row col)\<lparr>game_over := True, victory := False\<rparr>
            else cascade_inv g' \<and> (check_victory g' \<longrightarrow> game_over g'))"
proof (cases "mines g row col")
  case True
  from assms(1) have nf: "\<not> first_click g" by (simp add: cascade_inv_def)
  have "reveal_cell rs row col g = Some ((mark_revealed g row col)\<lparr>game_over := True, victory := False\<rparr>)"
    using reveal_cell_accepted[OF assms(4,5) handle_first_click_later[OF nf]] True by simp
  moreover have "same_board g ((mark_revealed g row col)\<lparr>game_over := True, victory := False\<rparr>)"
    by (simp add: same_board_def)
  ultimately show ?thesis using True by simp
next
  case False
  with cascade_inv_total(1)[OF assms(1), of row col rs] assms(4,5) show ?thesis by auto
qed

lemma session_inv_reveal:
  assumes "session_inv g" "\<not> game_over g" "reveal_cell rs row col g = Some g'"
  shows "session_inv g'"
proof (cases "\<not> is_valid_position g row col \<or> state g row col \<noteq> CELL_HIDDEN")
  case True
  with assms(1,3) show ?thesis by (simp add: reveal_cell_rejected)
next
  case False
  then have v: "is_valid_position g row col" and h: "state g row col = CELL_HIDDEN" by auto
  from assms(3) v h obtain g0 where g0: "handle_first_click rs row col g = Some g0"
    using reveal_cell_stuck[OF v h] by (cases "handle_first_click rs row col g") auto
  have base: "0 < width g" "0 < height g" "1 \<le> mine_count g"
    "mine_count g \<le> (width g * height g) div 4" "flags_placed g \<le> mine_count g"
    using assms(1) by (simp_all add: session_inv_def)
  have st: "cascade_inv g0 \<and> \<not> check_victory g0 \<and> \<not> game_over g0 \<and> state g0 = state g \<and>
      flags_placed g0 = flags_placed g \<and> mine_count g0 = mine_count g \<and> width g0 = width g \<and>
      height g0 = height g"
  proof (cases "first_click g")
    case True
    from first_click_cascade_inv[OF assms(1) True v g0] show ?thesis
      using cascade_inv_not_over[of g0 row col] v h by (simp add: is_valid_position_def)
  next
    case nf: False
    with g0 have "g0 = g" by simp
    with assms(1,2) nf show ?thesis by (simp add: session_inv_def)
  qed
  then have v0: "is_valid_position g0 row col" and h0: "state g0 row col = CELL_HIDDEN"
    using v h by (simp_all add: is_valid_position_def)
  have "reveal_cell rs row col g = reveal_cell rs row col g0"
    using reveal_cell_after_first_click[OF v h g0 handle_first_click_not_first[OF g0]] st by simp
  with assms(3) have run: "reveal_cell rs row col g0 = Some g'" by simp
  from reveal_running[of g0 row col rs] st v0 h0 run
  have sb: "same_board g0 g'"
    and res: "if mines g0 row col
            then g' = (mark_revealed g0 row col)\<lparr>game_over := True, victory := False\<rparr>
            else cascade_inv g' \<and> (check_victory g' \<longrightarrow> game_over g')"
    by auto
  have nf': "\<not> first_click g'" using sb st by (simp add: same_board_def cascade_inv_def)
  have dims: "width g' = width g" "height g' = height g" "mine_count g' = mine_count g"
    "flags_placed g' = flags_placed g"
    using sb st by (simp_all add: same_board_def)
  show ?thesis
  proof (cases "mines g0 row col")
    case True
    with res have g': "g' = (mark_revealed g0 row col)\<lparr>game_over := True, victory := False\<rparr>" by simp
    from st cascade_inv_count_bound[of g0]
    have "0 \<le> revealed_count g0" "revealed_count g0 < width g0 * height g0 - mine_count g0"
      by (auto simp: check_victory_def)
    then have "0 \<le> revealed_count g'" "revealed_count g' \<le> width g * height g - mine_count g"
      using st by (simp_all add: g')
    moreover have "game_over g'" "\<not> victory g'" by (simp_all add: g')
    ultimately show ?thesis using base dims nf' by (simp add: session_inv_def)
  next
    case False
    with res have inv: "cascade_inv g'" and cv: "check_victory g' \<longrightarrow> game_over g'" by simp_all
    have "game_over g' \<longrightarrow> victory g' \<and> check_victory g' \<and> mine_cells g' \<subseteq> revealed_cells g'"
      using inv mine_cells_subset[of g'] by (auto simp: cascade_inv_def)
    with cascade_inv_count_bound[OF inv] inv cv base dims nf' show ?thesis
      by (auto simp: session_inv_def)
  qed
qed

lemma session_inv_play:
  "session_inv g \<Longrightarrow> play_game_loop rs cmds g = Some g' \<Longrightarrow> session_inv g'"
proof (induction cmds arbitrary: g)
  case Nil
  then show ?case by simp
next
  case (Cons c cmds)
  show ?case
  proof (cases "game_over g")
    case True
    with Cons.prems show ?thesis by simp
  next
    case False
    show ?thesis
    proof (cases c)
      case (Reveal row col)
      with Cons.prems False obtain a where a: "reveal_cell rs row col g = Some a"
        and rest: "play_game_loop rs cmds a = Some g'"
        by (auto split: bind_splits)
      from Cons.IH[OF session_inv_reveal[OF Cons.prems(1) False a] rest] show ?thesis .
    next
      case (Flag row col)
      with Cons.prems False have "play_game_loop rs cmds (toggle_flag row col g) = Some g'" by simp
      from Cons.IH[OF session_inv_toggle[OF Cons.prems(1)] this] show ?thesis .
    next
      case Quit
      with Cons.prems False show ?thesis by simp
    next
      case Other
      with Cons.prems False Cons.IH show ?thesis by simp
    qed
  qed
qed

lemma only_reveals_refl [simp]: "only_reveals g g"
  by (simp add: only_reveals_def)

lemma only_reveals_trans:
  assumes "only_reveals g a" "only_reveals a g'" "same_board g a"
  shows "only_reveals g g'"
  unfolding only_reveals_def
proof (intro allI impI)
  fix i j assume ne: "state g' i j \<noteq> state g i j"
  have va: "is_valid_position a = is_valid_position g" by (rule same_board_valid[OF assms(3)])
  have ma: "mines a = mines g" using assms(3) by (simp add: same_board_def)
  show "is_valid_position g i j \<and> state g' i j = CELL_REVEALED \<and>
        (state g i j = CELL_HIDDEN \<or> mines g i j)"
  proof (cases "state g' i j = state a i j")
    case True
    with ne assms(1) show ?thesis by (auto simp: only_reveals_def)
  next
    case False
    with assms(2) have 2: "is_valid_position a i j" "state g' i j = CELL_REVEALED"
      "state a i j = CELL_HIDDEN \<or> mines a i j"
      by (auto simp: only_reveals_def)
    show ?thesis
    proof (cases "state a i j = state g i j")
      case True
      with 2 va ma show ?thesis by auto
    next
      case False
      with assms(1) have "state a i j = CELL_REVEALED" "state g i j = CELL_HIDDEN \<or> mines g i j"
        by (auto simp: only_reveals_def)
      with 2 va show ?thesis by auto
    qed
  qed
qed

lemma only_reveals_mark:
  "is_valid_position g row col \<Longrightarrow> state g row col = CELL_HIDDEN \<Longrightarrow>
     only_reveals g (mark_revealed g row col)"
  by (auto simp: only_reveals_def split: if_splits)

lemma only_reveals_finish:
  "only_reveals g (if check_victory g then game_over_sequence True g else g)"
  by (auto simp: only_reveals_def split: if_splits)

lemma only_reveals_not_hidden:
  "only_reveals g g' \<Longrightarrow> state g i j \<noteq> CELL_HIDDEN \<Longrightarrow> state g' i j \<noteq> CELL_HIDDEN"
  by (metis CellState.distinct(1) only_reveals_def)

lemma only_reveals_cases:
  "only_reveals g g' \<Longrightarrow> state g' i j = state g i j \<or> state g' i j = CELL_REVEALED"
  unfolding only_reveals_def by metis

lemma only_reveals_hidden:
  "only_reveals g g' \<Longrightarrow> state g' i j = CELL_HIDDEN \<Longrightarrow> state g i j = CELL_HIDDEN"
  using only_reveals_not_hidden by blast


lemma finish_changes_mines:
  "state (if check_victory g then game_over_sequence True g else g) i j \<noteq> state g i j \<Longrightarrow> mines g i j"
  by (auto split: if_splits)

lemma zero_cell_cong: "same_board g a \<Longrightarrow> zero_cell a = zero_cell g"
  using is_valid_position_cong[of a g] count_adjacent_mines_cong[of a g]
  by (intro ext) (simp add: zero_cell_def same_board_def)

lemma cascade_region_mono:
  assumes "same_board g a" "only_reveals g a"
  shows "cascade_region a r c \<subseteq> cascade_region g r c"
proof (rule subsetI, clarify)
  fix x y assume "(x, y) \<in> cascade_region a r c"
  then show "(x, y) \<in> cascade_region g r c"
  proof (induction rule: cascade_region.induct)
    case clicked
    show ?case by (rule cascade_region.clicked)
  next
    case (spread i j dr dc)
    have "zero_cell g i j" using spread(2) zero_cell_cong[OF assms(1)] by simp
    moreover have "is_valid_position g (i + dr) (j + dc)"
      using spread(4) same_board_valid[OF assms(1)] by simp
    moreover have "state g (i + dr) (j + dc) = CELL_HIDDEN"
      using only_reveals_hidden[OF assms(2) spread(5)] .
    ultimately show ?case using spread(3,6) by (intro cascade_region.spread)
  qed
qed

lemma cascade_region_trans:
  assumes "(p, q) \<in> cascade_region g r c"
  shows "cascade_region g p q \<subseteq> cascade_region g r c"
proof (rule subsetI, clarify)
  fix x y assume "(x, y) \<in> cascade_region g p q"
  then show "(x, y) \<in> cascade_region g r c"
  proof (induction rule: cascade_region.induct)
    case clicked
    show ?case by (rule assms)
  next
    case (spread i j dr dc)
    then show ?case by (intro cascade_region.spread)
  qed
qed

lemma closed_zeros_refl [simp]: "closed_zeros g g"
  by (auto simp: closed_zeros_def)

lemma closed_zerosD:
  "closed_zeros g g' \<Longrightarrow> zero_cell g i j \<Longrightarrow> state g i j = CELL_HIDDEN \<Longrightarrow>
     state g' i j = CELL_REVEALED \<Longrightarrow> (dr, dc) \<in> set neighbour_offsets \<Longrightarrow>
     is_valid_position g (i + dr) (j + dc) \<Longrightarrow> state g' (i + dr) (j + dc) \<noteq> CELL_HIDDEN"
  unfolding closed_zeros_def by blast

lemma closed_zerosI:
  assumes "\<And>i j dr dc. zero_cell g i j \<Longrightarrow> state g i j = CELL_HIDDEN \<Longrightarrow>
     state g' i j = CELL_REVEALED \<Longrightarrow> (dr, dc) \<in> set neighbour_offsets \<Longrightarrow>
     is_valid_position g (i + dr) (j + dc) \<Longrightarrow> state g' (i + dr) (j + dc) \<noteq> CELL_HIDDEN"
  shows "closed_zeros g g'"
  unfolding closed_zeros_def using assms by blast

lemma closed_zeros_trans:
  assumes "closed_zeros g a" "closed_zeros a g'" "same_board g a" "only_reveals g a"
    "only_reveals a g'"
  shows "closed_zeros g g'"
proof (rule closed_zerosI)
  fix i j dr dc
  assume z: "zero_cell g i j" and h: "state g i j = CELL_HIDDEN" and r: "state g' i j = CELL_REVEALED"
    and d: "(dr, dc) \<in> set neighbour_offsets" and v: "is_valid_position g (i + dr) (j + dc)"
  show "state g' (i + dr) (j + dc) \<noteq> CELL_HIDDEN"
  proof (cases "state a i j = CELL_REVEALED")
    case True
    from closed_zerosD[OF assms(1) z h True d v]
    show ?thesis by (rule only_reveals_not_hidden[OF assms(5)])
  next
    case False
    with assms(4) h have ha: "state a i j = CELL_HIDDEN" unfolding only_reveals_def by metis
    have za: "zero_cell a i j" using z zero_cell_cong[OF assms(3)] by simp
    have va: "is_valid_position a (i + dr) (j + dc)"
      using v same_board_valid[OF assms(3)] by simp
    from closed_zerosD[OF assms(2) za ha r d va] show ?thesis .
  qed
qed

lemma zero_cell_numbers:
  assumes "cascade_inv g" "is_valid_position g i j" "\<not> mines g i j"
  shows "zero_cell g i j \<longleftrightarrow> numbers g i j = 0"
  using assms by (auto simp: zero_cell_def cascade_inv_def numbers_ok_def board_cells_iff)

lemma cascade_effect:
  "cascade_inv g \<Longrightarrow>
     (is_valid_position g row col \<and> state g row col = CELL_HIDDEN \<longrightarrow> \<not> mines g row col) \<Longrightarrow>
     reveal_cell rs row col g = Some g' \<Longrightarrow>
     only_reveals g g' \<and> (is_valid_position g row col \<longrightarrow> state g' row col \<noteq> CELL_HIDDEN) \<and>
     closed_zeros g g' \<and>
     (\<forall>i j. state g i j = CELL_HIDDEN \<and> state g' i j = CELL_REVEALED \<and> \<not> mines g i j
        \<longrightarrow> (i, j) \<in> cascade_region g row col)"
  "cascade_inv g \<Longrightarrow>
     (\<forall>(dr, dc) \<in> set ds. is_valid_position g (row + dr) (col + dc)
         \<longrightarrow> \<not> mines g (row + dr) (col + dc)) \<Longrightarrow>
     reveal_adjacent_loop rs ds row col g = Some g' \<Longrightarrow>
     only_reveals g g' \<and>
     (\<forall>(dr, dc) \<in> set ds. is_valid_position g (row + dr) (col + dc)
         \<longrightarrow> state g' (row + dr) (col + dc) \<noteq> CELL_HIDDEN) \<and>
     closed_zeros g g' \<and>
     (\<forall>i j. state g i j = CELL_HIDDEN \<and> state g' i j = CELL_REVEALED \<and> \<not> mines g i j
        \<longrightarrow> (\<exists>(dr, dc) \<in> set ds. is_valid_position g (row + dr) (col + dc) \<and>
               state g (row + dr) (col + dc) = CELL_HIDDEN \<and>
               (i, j) \<in> cascade_region g (row + dr) (col + dc)))"
proof (induction rs row col g and rs ds row col g arbitrary: g' and g'
       rule: reveal_cell_reveal_adjacent_loop.induct)
  case (1 rs row col g)
  note inv = 1(2) and run = 1(4)
  show ?case
  proof (cases "\<not> is_valid_position g row col \<or> state g row col \<noteq> CELL_HIDDEN")
    case True
    with run have "g' = g" by (simp add: reveal_cell_rejected)
    with True show ?thesis by auto
  next
    case False
    then have v: "is_valid_position g row col" and h: "state g row col = CELL_HIDDEN" by auto
    with 1(3) have nm: "\<not> mines g row col" by simp
    from inv have nf: "\<not> first_click g" by (simp add: cascade_inv_def)
    let ?g1 = "mark_revealed g row col"
    have inv1: "cascade_inv ?g1" by (rule cascade_inv_mark[OF inv v h nm])
    have or1: "only_reveals g ?g1" by (rule only_reveals_mark[OF v h])
    have sb1: "same_board g ?g1" by simp
    from run reveal_cell_accepted[OF v h handle_first_click_later[OF nf]] nm
    obtain g2 where g2: "(if numbers g row col = 0
              then reveal_adjacent_loop rs neighbour_offsets row col ?g1
              else Some ?g1) = Some g2"
      and g': "g' = (if check_victory g2 then game_over_sequence True g2 else g2)"
      by (auto split: bind_splits)
    have or2': "only_reveals g2 g'" unfolding g' by (rule only_reveals_finish)
    have sb2': "same_board g2 g'" unfolding g' by simp
    have fin: "state g' i j = state g2 i j" if "\<not> mines g2 i j" for i j
      using finish_changes_mines[of g2 i j] that unfolding g' by blast
    show ?thesis
    proof (cases "numbers g row col = 0")
      case True
      with g2 have loop: "reveal_adjacent_loop rs neighbour_offsets row col ?g1 = Some g2" by simp
      have z: "zero_cell g row col" using zero_cell_numbers[OF inv v nm] True by simp
      then have "count_adjacent_mines g row col = 0" by (simp add: zero_cell_def)
      then have nms: "\<forall>(dr, dc) \<in> set neighbour_offsets. is_valid_position ?g1 (row + dr) (col + dc)
         \<longrightarrow> \<not> mines ?g1 (row + dr) (col + dc)"
        using zero_count_no_mine[of g row col] by auto
      from cascade_inv_total(2)[OF inv1 nms, of rs] loop have sb12: "same_board ?g1 g2" by auto
      have hfc: "handle_first_click rs row col g = Some g" by (rule handle_first_click_later[OF nf])
      from 1(1)[OF False hfc refl _ _ inv1 nms loop] nm True
      have or12: "only_reveals ?g1 g2"
        and vis: "\<forall>(dr, dc) \<in> set neighbour_offsets. is_valid_position ?g1 (row + dr) (col + dc)
            \<longrightarrow> state g2 (row + dr) (col + dc) \<noteq> CELL_HIDDEN"
        and cz: "closed_zeros ?g1 g2"
        and reg: "\<forall>i j. state ?g1 i j = CELL_HIDDEN \<and> state g2 i j = CELL_REVEALED \<and> \<not> mines ?g1 i j
            \<longrightarrow> (\<exists>(dr, dc) \<in> set neighbour_offsets. is_valid_position ?g1 (row + dr) (col + dc) \<and>
               state ?g1 (row + dr) (col + dc) = CELL_HIDDEN \<and>
               (i, j) \<in> cascade_region ?g1 (row + dr) (col + dc))"
        by simp_all
      have sb2: "same_board g g2" by (rule same_board_trans[OF sb1 sb12])
      have or2: "only_reveals g g2" by (rule only_reveals_trans[OF or1 or12 sb1])
      have org: "only_reveals g g'" by (rule only_reveals_trans[OF or2 or2' sb2])
      have m2: "mines g2 = mines g" using sb2 by (simp add: same_board_def)
      have nh: "state g' row col \<noteq> CELL_HIDDEN"
        using only_reveals_not_hidden[OF only_reveals_trans[OF or12 or2' sb12], of row col] by simp
      have cz': "closed_zeros g g'"
      proof (rule closed_zerosI)
        fix i j dr dc
        assume zc: "zero_cell g i j" and hi: "state g i j = CELL_HIDDEN"
          and re: "state g' i j = CELL_REVEALED" and d: "(dr, dc) \<in> set neighbour_offsets"
          and vd: "is_valid_position g (i + dr) (j + dc)"
        have "state g2 (i + dr) (j + dc) \<noteq> CELL_HIDDEN"
        proof (cases "i = row \<and> j = col")
          case True
          with vis d vd show ?thesis by auto
        next
          case ne: False
          then have h1: "state ?g1 i j = CELL_HIDDEN" using hi by auto
          have "\<not> mines g2 i j" using zc m2 by (simp add: zero_cell_def)
          with fin[of i j] re have r2: "state g2 i j = CELL_REVEALED" by simp
          have z1: "zero_cell ?g1 i j" using zc zero_cell_cong[OF sb1] by simp
          have v1: "is_valid_position ?g1 (i + dr) (j + dc)" using vd by simp
          from closed_zerosD[OF cz z1 h1 r2 d v1] show ?thesis .
        qed
        then show "state g' (i + dr) (j + dc) \<noteq> CELL_HIDDEN"
          by (rule only_reveals_not_hidden[OF or2'])
      qed
      have rg: "(i, j) \<in> cascade_region g row col"
        if hi: "state g i j = CELL_HIDDEN" and re: "state g' i j = CELL_REVEALED"
          and nmi: "\<not> mines g i j" for i j
      proof (cases "i = row \<and> j = col")
        case True
        then show ?thesis by (simp add: cascade_region.clicked)
      next
        case ne: False
        then have h1: "state ?g1 i j = CELL_HIDDEN" using hi by auto
        from fin[of i j] re nmi m2 have r2: "state g2 i j = CELL_REVEALED" by simp
        have nm1: "\<not> mines ?g1 i j" using nmi by simp
        from reg h1 r2 nm1 obtain d where dmem: "d \<in> set neighbour_offsets"
          and dprop: "case d of (dr, dc) \<Rightarrow> is_valid_position ?g1 (row + dr) (col + dc) \<and>
               state ?g1 (row + dr) (col + dc) = CELL_HIDDEN \<and>
               (i, j) \<in> cascade_region ?g1 (row + dr) (col + dc)"
          by blast
        obtain dr dc where deq: "d = (dr, dc)" by (cases d)
        from dmem dprop have d: "(dr, dc) \<in> set neighbour_offsets"
          and vd: "is_valid_position ?g1 (row + dr) (col + dc)"
          and hd: "state ?g1 (row + dr) (col + dc) = CELL_HIDDEN"
          and mem: "(i, j) \<in> cascade_region ?g1 (row + dr) (col + dc)"
          unfolding deq by simp_all
        have hd': "state g (row + dr) (col + dc) = CELL_HIDDEN"
          by (rule only_reveals_hidden[OF or1 hd])
        have "(row + dr, col + dc) \<in> cascade_region g row col"
          using cascade_region.spread[OF cascade_region.clicked z d _ hd'] vd by simp
        from cascade_region_trans[OF this] cascade_region_mono[OF sb1 or1] mem
        show ?thesis by blast
      qed
      from org nh cz' rg show ?thesis by blast
    next
      case nz: False
      with g2 have g2eq: "g2 = ?g1" by simp
      have org: "only_reveals g g'"
        using only_reveals_trans[OF or1 _ sb1] or2' g2eq by simp
      have nh: "state g' row col \<noteq> CELL_HIDDEN"
        using only_reveals_not_hidden[OF or2', of row col] g2eq by simp
      have nz': "\<not> zero_cell g row col" using zero_cell_numbers[OF inv v nm] nz by simp
      have only: "i = row \<and> j = col"
        if "state g i j = CELL_HIDDEN" "state g' i j = CELL_REVEALED" "\<not> mines g i j" for i j
      proof (rule ccontr)
        assume "\<not> (i = row \<and> j = col)"
        with that(1) have "state g2 i j = CELL_HIDDEN" using g2eq by auto
        with fin[of i j] that(2,3) g2eq show False by simp
      qed
      have cz': "closed_zeros g g'"
      proof (rule closed_zerosI)
        fix i j dr dc
        assume "zero_cell g i j" "state g i j = CELL_HIDDEN" "state g' i j = CELL_REVEALED"
        with only[of i j] nz' have False by (auto simp: zero_cell_def)
        then show "state g' (i + dr) (j + dc) \<noteq> CELL_HIDDEN" ..
      qed
      have rg: "(i, j) \<in> cascade_region g row col"
        if "state g i j = CELL_HIDDEN" "state g' i j = CELL_REVEALED" "\<not> mines g i j" for i j
        using only[OF that] by (simp add: cascade_region.clicked)
      from org nh cz' rg show ?thesis by blast
    qed
  qed
next
  case (2 rs row col g)
  then show ?case by auto
next
  case (3 rs dr dc ds row col g)
  note inv = 3(3) and nms = 3(4) and run = 3(5)
  let ?nr = "row + dr" and ?nc = "col + dc"
  let ?c = "is_valid_position g ?nr ?nc \<and> state g ?nr ?nc = CELL_HIDDEN"
  from run obtain a where a: "(if ?c then reveal_cell rs ?nr ?nc g else Some g) = Some a"
    and rest: "reveal_adjacent_loop rs ds row col a = Some g'"
    by (auto split: bind_splits)
  have step: "cascade_inv a \<and> same_board g a \<and> only_reveals g a \<and>
      (is_valid_position g ?nr ?nc \<longrightarrow> state a ?nr ?nc \<noteq> CELL_HIDDEN) \<and> closed_zeros g a \<and>
      (\<forall>i j. state g i j = CELL_HIDDEN \<and> state a i j = CELL_REVEALED \<and> \<not> mines g i j
        \<longrightarrow> ?c \<and> (i, j) \<in> cascade_region g ?nr ?nc)"
  proof (cases ?c)
    case True
    with a have ra: "reveal_cell rs ?nr ?nc g = Some a" by simp
    from True nms have nm: "is_valid_position g ?nr ?nc \<and> state g ?nr ?nc = CELL_HIDDEN \<longrightarrow> \<not> mines g ?nr ?nc"
      by auto
    from cascade_inv_total(1)[OF inv nm, of rs] ra have "cascade_inv a" "same_board g a" by auto
    with 3(1)[OF True inv nm ra] True show ?thesis by blast
  next
    case False
    with a have "a = g" by simp
    with inv False show ?thesis by auto
  qed
  then have inva: "cascade_inv a" and sba: "same_board g a" and ora: "only_reveals g a"
    and visa: "is_valid_position g ?nr ?nc \<longrightarrow> state a ?nr ?nc \<noteq> CELL_HIDDEN"
    and cza: "closed_zeros g a"
    and rega: "\<forall>i j. state g i j = CELL_HIDDEN \<and> state a i j = CELL_REVEALED \<and> \<not> mines g i j
        \<longrightarrow> ?c \<and> (i, j) \<in> cascade_region g ?nr ?nc"
    by blast+
  have va: "is_valid_position a = is_valid_position g" by (rule same_board_valid[OF sba])
  have ma: "mines a = mines g" using sba by (simp add: same_board_def)
  have nmsa: "\<forall>(dr, dc) \<in> set ds. is_valid_position a (row + dr) (col + dc)
         \<longrightarrow> \<not> mines a (row + dr) (col + dc)"
    using nms va ma by auto
  from 3(2)[OF a inva nmsa rest]
  have or': "only_reveals a g'"
    and vis': "\<forall>(dr, dc) \<in> set ds. is_valid_position a (row + dr) (col + dc)
         \<longrightarrow> state g' (row + dr) (col + dc) \<noteq> CELL_HIDDEN"
    and cz': "closed_zeros a g'"
    and reg': "\<forall>i j. state a i j = CELL_HIDDEN \<and> state g' i j = CELL_REVEALED \<and> \<not> mines a i j
        \<longrightarrow> (\<exists>(dr, dc) \<in> set ds. is_valid_position a (row + dr) (col + dc) \<and>
               state a (row + dr) (col + dc) = CELL_HIDDEN \<and>
               (i, j) \<in> cascade_region a (row + dr) (col + dc))"
    by blast+
  have org: "only_reveals g g'" by (rule only_reveals_trans[OF ora or' sba])
  have vis: "\<forall>(dr', dc') \<in> set ((dr, dc) # ds). is_valid_position g (row + dr') (col + dc')
         \<longrightarrow> state g' (row + dr') (col + dc') \<noteq> CELL_HIDDEN"
    using visa only_reveals_not_hidden[OF or', of ?nr ?nc] vis' va by auto
  have cz: "closed_zeros g g'" by (rule closed_zeros_trans[OF cza cz' sba ora or'])
  have rg: "\<exists>(dr', dc') \<in> set ((dr, dc) # ds). is_valid_position g (row + dr') (col + dc') \<and>
               state g (row + dr') (col + dc') = CELL_HIDDEN \<and>
               (i, j) \<in> cascade_region g (row + dr') (col + dc')"
    if hi: "state g i j = CELL_HIDDEN" and re: "state g' i j = CELL_REVEALED"
      and nmi: "\<not> mines g i j" for i j
  proof (cases "state a i j = CELL_REVEALED")
    case True
    with rega hi nmi have "?c \<and> (i, j) \<in> cascade_region g ?nr ?nc" by blast
    then show ?thesis by auto
  next
    case False
    with only_reveals_cases[OF ora, of i j] hi have "state a i j = CELL_HIDDEN" by simp
    moreover have "\<not> mines a i j" using nmi ma by simp
    ultimately obtain d where dmem: "d \<in> set ds"
      and dprop: "case d of (dr, dc) \<Rightarrow> is_valid_position a (row + dr) (col + dc) \<and>
               state a (row + dr) (col + dc) = CELL_HIDDEN \<and>
               (i, j) \<in> cascade_region a (row + dr) (col + dc)"
      using reg' re by blast
    obtain dr' dc' where deq: "d = (dr', dc')" by (cases d)
    from dmem dprop have d: "(dr', dc') \<in> set ds"
      and vd: "is_valid_position a (row + dr') (col + dc')"
      and hd: "state a (row + dr') (col + dc') = CELL_HIDDEN"
      and mem: "(i, j) \<in> cascade_region a (row + dr') (col + dc')"
      unfolding deq by simp_all
    have "state g (row + dr') (col + dc') = CELL_HIDDEN" by (rule only_reveals_hidden[OF ora hd])
    moreover have "(i, j) \<in> cascade_region g (row + dr') (col + dc')"
      using cascade_region_mono[OF sba ora] mem by blast
    ultimately show ?thesis using d vd va by auto
  qed
  from org vis cz rg show ?case by blast
qed

section \<open>Sessions\<close>

lemma configured_clear_reset:
  assumes "MIN_WIDTH \<le> width g" "width g \<le> MAX_WIDTH" "MIN_HEIGHT \<le> height g"
    "height g \<le> MAX_HEIGHT" "1 \<le> mine_count g" "mine_count g \<le> (width g * height g) div 4"
  shows "configured (clear_grids (reset_counters g))"
  using assms
  by (auto simp: configured_def clear_grids_def reset_counters_def mine_cells_def hidden_cells_def
                 board_cells_def is_valid_position_def)

lemma configured_setup_difficulty:
  "d \<noteq> DIFFICULTY_CUSTOM \<Longrightarrow> configured (setup_difficulty d g)"
  by (cases d; simp; intro configured_clear_reset)
     (simp_all add: MIN_WIDTH_def MAX_WIDTH_def MIN_HEIGHT_def MAX_HEIGHT_def)

lemma configured_custom_setup:
  assumes "custom_setup w_in h_in m_in g = Inr g'"
  shows "configured g'"
proof -
  from assms obtain w h m where in_eq: "w_in = Some w" "h_in = Some h" "m_in = Some m"
    by (cases w_in; cases h_in; cases m_in) (auto simp: custom_setup_def Let_def split: if_splits)
  let ?g = "g\<lparr>width := w, height := h, mine_count := m\<rparr>"
  from assms have "g' = clear_grids (reset_counters ?g)"
    and rng: "MIN_WIDTH \<le> w" "w \<le> MAX_WIDTH" "MIN_HEIGHT \<le> h" "h \<le> MAX_HEIGHT" "1 \<le> m"
      "m \<le> (w * h) div 4"
    unfolding in_eq by (auto simp: custom_setup_def scanf_int_def Let_def split: if_splits)
  then show ?thesis using configured_clear_reset[of ?g] by simp
qed

lemma configured_custom_board:
  assumes "1 \<le> m" "m \<le> 6"
  shows "configured (custom_board m)"
proof -
  have "custom_setup (Some 5) (Some 5) (Some m) init_minesweeper
          = Inr (clear_grids (reset_counters (init_minesweeper\<lparr>width := 5, height := 5, mine_count := m\<rparr>)))"
    using assms
    by (simp add: custom_setup_def scanf_int_def Let_def MIN_WIDTH_def MAX_WIDTH_def
                  MIN_HEIGHT_def MAX_HEIGHT_def)
  then show ?thesis
    using configured_custom_setup[of "Some 5" "Some 5" "Some m" init_minesweeper]
    by (simp add: custom_board_def)
qed

lemma play_from_configured:
  "configured g0 \<Longrightarrow> play_game_loop rs cmds g0 = Some g \<Longrightarrow> session_inv g"
  using configured_session_inv session_inv_play by blast

text \<open>
  Claim C7. In every game reached from a configured board by any sequence of commands
  (flag toggles, reveals with their cascades, a reveal that hits a mine), the counter of
  revealed cells lies between 0 and \<open>width * height - mine_count\<close>.
\<close>

theorem revealed_count_bounds:
  assumes "configured g0" "play_game_loop rs cmds g0 = Some g"
  shows "0 \<le> revealed_count g \<and> revealed_count g \<le> width g * height g - mine_count g"
  using play_from_configured[OF assms] by (simp add: session_inv_def)

theorem revealed_count_bounds_witness:
  "\<exists>g. play_game_loop [1,1, 1,3, 3,1, 3,3] [Flag 1 1, Reveal 0 0, Reveal 2 2, Reveal 1 3] (custom_board 4)
          = Some g \<and> session_lost g \<and> revealed_count g = 3 \<and>
        0 \<le> revealed_count g \<and> revealed_count g \<le> width g * height g - mine_count g"
proof -
  let ?run = "play_game_loop [1,1, 1,3, 3,1, 3,3] [Flag 1 1, Reveal 0 0, Reveal 2 2, Reveal 1 3] (custom_board 4)"
  have "case ?run of None \<Rightarrow> False | Some g \<Rightarrow> session_lost g \<and> revealed_count g = 3"
    by code_simp
  then obtain g where run: "?run = Some g" and l: "session_lost g" "revealed_count g = 3"
    by (cases ?run) auto
  have c: "configured (custom_board 4)" by (rule configured_custom_board) simp_all
  from revealed_count_bounds[OF c run] run l show ?thesis by blast
qed

lemma toggle_flag_refused:
  "\<not> is_valid_position g row col \<or> state g row col = CELL_REVEALED \<or>
     (state g row col = CELL_HIDDEN \<and> \<not> flags_placed g < mine_count g) \<Longrightarrow>
     toggle_flag row col g = g"
  by (auto simp: toggle_flag_def)

text \<open>
  Claim C5, as the code has it. \<^verbatim>\<open>toggle_flag\<close> on a hidden cell of the board flags it and
  adds one to \<^verbatim>\<open>flags_placed\<close>, leaving every other cell as it was, exactly when
  \<^verbatim>\<open>flags_placed\<close> is below \<^verbatim>\<open>mine_count\<close>. Otherwise it returns the game unchanged and
  reports nothing: the game loop goes on as if the command had not been given, and the
  result is the one a position off the board or a revealed cell gets. In every game
  reached from a configured board \<^verbatim>\<open>flags_placed\<close> is at most \<^verbatim>\<open>mine_count\<close>.
\<close>

theorem flag_ceiling:
  "(is_valid_position g row col \<and> state g row col = CELL_HIDDEN \<longrightarrow>
      (if flags_placed g < mine_count g
       then state (toggle_flag row col g) row col = CELL_FLAGGED \<and>
            flags_placed (toggle_flag row col g) = flags_placed g + 1 \<and>
            (\<forall>i j. (i, j) \<noteq> (row, col) \<longrightarrow> state (toggle_flag row col g) i j = state g i j)
       else toggle_flag row col g = g \<and>
            (\<not> game_over g \<longrightarrow>
               play_game_loop rs (Flag row col # cmds) g = play_game_loop rs cmds g) \<and>
            (\<forall>r c. \<not> is_valid_position g r c \<or> state g r c = CELL_REVEALED \<longrightarrow>
               toggle_flag r c g = toggle_flag row col g)))
   \<and> (configured g0 \<and> play_game_loop rs cmds g0 = Some g' \<longrightarrow> flags_placed g' \<le> mine_count g')"
proof -
  have "flags_placed g' \<le> mine_count g'" if "configured g0" "play_game_loop rs cmds g0 = Some g'"
    using play_from_configured[OF that] by (simp add: session_inv_def)
  moreover have "toggle_flag r c g = g"
    if "\<not> is_valid_position g r c \<or> state g r c = CELL_REVEALED" for r c
    using that by (auto simp: toggle_flag_refused)
  ultimately show ?thesis
    by (auto simp: toggle_flag_def set_state_def)
qed

theorem flag_ceiling_witness:
  "\<exists>g. play_game_loop [] [Flag 0 0, Flag 0 1] (custom_board 2) = Some g \<and>
        flags_placed g = 2 \<and> mine_count g = 2 \<and> flags_placed g \<le> mine_count g \<and>
        is_valid_position g 0 2 \<and> state g 0 2 = CELL_HIDDEN \<and> toggle_flag 0 2 g = g \<and>
        play_game_loop [] [Flag 0 2, Flag 0 0, Flag 0 1] g = play_game_loop [] [Flag 0 0, Flag 0 1] g"
proof -
  let ?run = "play_game_loop [] [Flag 0 0, Flag 0 1] (custom_board 2)"
  have "case ?run of None \<Rightarrow> False | Some g \<Rightarrow> flags_placed g = 2 \<and> mine_count g = 2 \<and>
          is_valid_position g 0 2 \<and> state g 0 2 = CELL_HIDDEN \<and> \<not> game_over g"
    by code_simp
  then obtain g where run: "?run = Some g" and f: "flags_placed g = 2" "mine_count g = 2"
    "is_valid_position g 0 2" "state g 0 2 = CELL_HIDDEN" "\<not> game_over g"
    by (cases ?run) auto
  have c: "configured (custom_board 2)" by (rule configured_custom_board) simp_all
  from flag_ceiling[of g 0 2 "[]" "[Flag 0 0, Flag 0 1]" "custom_board 2" g] c run f
  show ?thesis by auto
qed

text \<open>
  Claim C5 as stated has the refusal at the ceiling return its own reason,
  \<open>Rejected(MaxFlagsReached)\<close>. \<^verbatim>\<open>toggle_flag\<close> is a \<^verbatim>\<open>void\<close> function: all its caller gets
  is the game. With four flags on a board of four mines, a flag on the hidden cell (2,2),
  one off the board at (5,0) and one on the revealed cell (0,0) give the same result.
\<close>

theorem flag_refusals_indistinguishable:
  "\<exists>g. play_game_loop [1,1, 1,3, 3,1, 3,3] [Reveal 0 0, Flag 0 1, Flag 0 2, Flag 0 3, Flag 0 4]
          (custom_board 4) = Some g \<and>
        flags_placed g = mine_count g \<and>
        is_valid_position g 2 2 \<and> state g 2 2 = CELL_HIDDEN \<and>
        \<not> is_valid_position g 5 0 \<and> state g 0 0 = CELL_REVEALED \<and>
        toggle_flag 2 2 g = toggle_flag 5 0 g \<and> toggle_flag 2 2 g = toggle_flag 0 0 g"
proof -
  let ?run = "play_game_loop [1,1, 1,3, 3,1, 3,3] [Reveal 0 0, Flag 0 1, Flag 0 2, Flag 0 3, Flag 0 4]
          (custom_board 4)"
  have "case ?run of None \<Rightarrow> False | Some g \<Rightarrow> flags_placed g = mine_count g \<and>
          is_valid_position g 2 2 \<and> state g 2 2 = CELL_HIDDEN \<and>
          \<not> is_valid_position g 5 0 \<and> state g 0 0 = CELL_REVEALED"
    by code_simp
  then obtain g where run: "?run = Some g" and f: "flags_placed g = mine_count g"
    "is_valid_position g 2 2" "state g 2 2 = CELL_HIDDEN"
    "\<not> is_valid_position g 5 0" "state g 0 0 = CELL_REVEALED"
    by (cases ?run) auto
  have "toggle_flag 2 2 g = g" "toggle_flag 5 0 g = g" "toggle_flag 0 0 g = g"
    using f by (simp_all add: toggle_flag_refused)
  with run f show ?thesis by simp
qed




lemma reveal_accepted_session:
  assumes "session_inv g" "\<not> game_over g" "is_valid_position g row col"
    "state g row col = CELL_HIDDEN" "handle_first_click rs row col g = Some g0"
  shows "cascade_inv g0" "\<not> check_victory g0" "\<not> game_over g0" "state g0 = state g"
    "width g0 = width g" "height g0 = height g" "mine_count g0 = mine_count g"
    "flags_placed g0 = flags_placed g"
    "reveal_cell rs row col g = reveal_cell rs row col g0"
    "is_valid_position g0 row col" "state g0 row col = CELL_HIDDEN"
proof -
  have st: "cascade_inv g0 \<and> \<not> check_victory g0 \<and> \<not> game_over g0 \<and> state g0 = state g \<and>
      flags_placed g0 = flags_placed g \<and> mine_count g0 = mine_count g \<and> width g0 = width g \<and>
      height g0 = height g"
  proof (cases "first_click g")
    case True
    from first_click_cascade_inv[OF assms(1) True assms(3,5)] show ?thesis
      using cascade_inv_not_over[of g0 row col] assms(3,4) by (simp add: is_valid_position_def)
  next
    case nf: False
    with assms(5) have "g0 = g" by simp
    with assms(1,2) nf show ?thesis by (simp add: session_inv_def)
  qed
  then show "cascade_inv g0" "\<not> check_victory g0" "\<not> game_over g0" "state g0 = state g"
    "width g0 = width g" "height g0 = height g" "mine_count g0 = mine_count g"
    "flags_placed g0 = flags_placed g"
    by simp_all
  show "reveal_cell rs row col g = reveal_cell rs row col g0"
    using reveal_cell_after_first_click[OF assms(3,4,5) handle_first_click_not_first[OF assms(5)]] st
    by simp
  show "is_valid_position g0 row col" "state g0 row col = CELL_HIDDEN"
    using st assms(3,4) by (simp_all add: is_valid_position_def)
qed

lemma reveal_accepted_handle:
  assumes "is_valid_position g row col" "state g row col = CELL_HIDDEN"
    "reveal_cell rs row col g = Some g'"
  obtains g0 where "handle_first_click rs row col g = Some g0"
  using assms reveal_cell_stuck[OF assms(1,2)] by (cases "handle_first_click rs row col g") auto

lemma reveal_lost_iff:
  assumes "session_inv g" "\<not> game_over g" "reveal_cell rs row col g = Some a"
  shows "session_lost a \<longleftrightarrow>
           is_valid_position g row col \<and> state g row col = CELL_HIDDEN \<and> mines a row col"
proof (cases "\<not> is_valid_position g row col \<or> state g row col \<noteq> CELL_HIDDEN")
  case True
  with assms(3) have "a = g" by (simp add: reveal_cell_rejected)
  with True assms(2) show ?thesis by (auto simp: session_lost_def)
next
  case False
  then have v: "is_valid_position g row col" and h: "state g row col = CELL_HIDDEN" by auto
  from reveal_accepted_handle[OF v h assms(3)] obtain g0
    where g0: "handle_first_click rs row col g = Some g0" .
  note s = reveal_accepted_session[OF assms(1,2) v h g0]
  from assms(3) s(9) have run: "reveal_cell rs row col g0 = Some a" by simp
  from reveal_running[OF s(1,2,3,10,11), of rs] run
  have sb: "same_board g0 a"
    and res: "if mines g0 row col
            then a = (mark_revealed g0 row col)\<lparr>game_over := True, victory := False\<rparr>
            else cascade_inv a \<and> (check_victory a \<longrightarrow> game_over a)"
    by auto
  have m: "mines a = mines g0" using sb by (simp add: same_board_def)
  show ?thesis
  proof (cases "mines g0 row col")
    case True
    with res have "session_lost a" by (simp add: session_lost_def)
    with True m v h show ?thesis by simp
  next
    case nm: False
    with res have "cascade_inv a" by simp
    then have "\<not> session_lost a" by (auto simp: cascade_inv_def session_lost_def)
    with nm m show ?thesis by simp
  qed
qed

lemma play_game_over [simp]: "game_over g \<Longrightarrow> play_game_loop rs cmds g = Some g"
  by (cases cmds) simp_all

lemma mine_hit_game_over [simp]: "game_over g \<Longrightarrow> mine_hit rs cmds g = False"
  by (cases cmds) simp_all

lemma play_mine_hit:
  "session_inv g \<Longrightarrow> play_game_loop rs cmds g = Some g' \<Longrightarrow>
     mine_hit rs cmds g \<longleftrightarrow> \<not> game_over g \<and> session_lost g'"
proof (induction cmds arbitrary: g)
  case Nil
  then show ?case by (auto simp: session_lost_def)
next
  case (Cons c cmds)
  show ?case
  proof (cases "game_over g")
    case True
    then show ?thesis by simp
  next
    case False
    show ?thesis
    proof (cases c)
      case (Reveal row col)
      with Cons.prems False obtain a where a: "reveal_cell rs row col g = Some a"
        and rest: "play_game_loop rs cmds a = Some g'"
        by (auto split: bind_splits)
      note inva = session_inv_reveal[OF Cons.prems(1) False a]
      note ih = Cons.IH[OF inva rest]
      note li = reveal_lost_iff[OF Cons.prems(1) False a]
      show ?thesis
      proof (cases "game_over a")
        case True
        with rest have "g' = a" by simp
        with True li ih a False Reveal show ?thesis by simp
      next
        case nover: False
        then have "\<not> session_lost a" by (simp add: session_lost_def)
        with li ih nover a False Reveal show ?thesis by auto
      qed
    next
      case (Flag row col)
      with Cons.prems False have r: "play_game_loop rs cmds (toggle_flag row col g) = Some g'" by simp
      from Cons.IH[OF session_inv_toggle[OF Cons.prems(1)] r] False Flag show ?thesis by simp
    next
      case Quit
      with Cons.prems False show ?thesis by (auto simp: session_lost_def)
    next
      case Other
      with Cons.prems False Cons.IH show ?thesis by simp
    qed
  qed
qed

text \<open>
  Claim C2. In every game reached from a configured board, the game is won exactly when
  \<^verbatim>\<open>revealed_count\<close> equals \<open>width * height - mine_count\<close> and no reveal command of the
  session opened a mine while the game was running. In a won game every cell with a mine
  is revealed, and \<^verbatim>\<open>game_over_sequence\<close>, which reveals them, leaves \<^verbatim>\<open>revealed_count\<close>
  as it is.
\<close>

theorem win_criterion:
  assumes "configured g0" "play_game_loop rs cmds g0 = Some g"
  shows "(session_won g \<longleftrightarrow>
            revealed_count g = width g * height g - mine_count g \<and> \<not> mine_hit rs cmds g0)
       \<and> (session_won g \<longrightarrow> mine_cells g \<subseteq> revealed_cells g)
       \<and> revealed_count (game_over_sequence True g) = revealed_count g"
proof -
  note inv0 = configured_session_inv[OF assms(1)]
  note inv = session_inv_play[OF inv0 assms(2)]
  have n0: "\<not> game_over g0" using assms(1) by (simp add: configured_def)
  from play_mine_hit[OF inv0 assms(2)] n0 have hit: "mine_hit rs cmds g0 \<longleftrightarrow> session_lost g" by simp
  have pos: "0 < width g * height g - mine_count g"
  proof -
    from inv have "0 < width g * height g" "mine_count g \<le> (width g * height g) div 4"
      by (simp_all add: session_inv_def)
    then show ?thesis by linarith
  qed
  have "session_won g \<longleftrightarrow> check_victory g \<and> \<not> session_lost g"
  proof (cases "first_click g")
    case True
    with inv pos show ?thesis
      by (auto simp: session_inv_def session_won_def session_lost_def check_victory_def)
  next
    case False
    with inv show ?thesis
      by (auto simp: session_inv_def session_won_def session_lost_def split: if_splits)
  qed
  moreover have "session_won g \<longrightarrow> mine_cells g \<subseteq> revealed_cells g"
    using inv by (auto simp: session_inv_def session_won_def split: if_splits)
  ultimately show ?thesis using hit by (simp add: check_victory_def)
qed

theorem win_criterion_witness:
  "\<exists>g. play_game_loop [1,1, 1,3, 3,1, 3,3] 
     [Flag 1 1, Reveal 0 0, Reveal 0 1, Reveal 0 2, Reveal 0 3, Reveal 0 4,
     Reveal 1 0, Reveal 1 2, Reveal 1 4,
     Reveal 2 0, Reveal 2 1, Reveal 2 2, Reveal 2 3, Reveal 2 4,
     Reveal 3 0, Reveal 3 2, Reveal 3 4,
     Reveal 4 0, Reveal 4 1, Reveal 4 2, Reveal 4 3, Reveal 4 4] (custom_board 4) = Some g \<and>
     session_won g \<and> revealed_count g = 21 \<and> width g * height g - mine_count g = 21 \<and>
     mine_cells g \<subseteq> revealed_cells g"
proof -
  let ?cmds = "[Flag 1 1, Reveal 0 0, Reveal 0 1, Reveal 0 2, Reveal 0 3, Reveal 0 4,
     Reveal 1 0, Reveal 1 2, Reveal 1 4,
     Reveal 2 0, Reveal 2 1, Reveal 2 2, Reveal 2 3, Reveal 2 4,
     Reveal 3 0, Reveal 3 2, Reveal 3 4,
     Reveal 4 0, Reveal 4 1, Reveal 4 2, Reveal 4 3, Reveal 4 4]"
  let ?rs = "[1,1, 1,3, 3,1, 3,3] :: nat list"
  let ?run = "play_game_loop ?rs ?cmds (custom_board 4)"
  have "case ?run of None \<Rightarrow> False | Some g \<Rightarrow> revealed_count g = 21 \<and>
          width g * height g - mine_count g = 21"
    by code_simp
  then obtain g where run: "?run = Some g" and f: "revealed_count g = 21"
    "width g * height g - mine_count g = 21"
    by (cases ?run) auto
  have nh: "\<not> mine_hit ?rs ?cmds (custom_board 4)" by code_simp
  have c: "configured (custom_board 4)" by (rule configured_custom_board) simp_all
  from win_criterion[OF c run] nh f run show ?thesis by auto
qed

text \<open>
  Claim C3 on the code. A reveal that hits a mine ends the game as lost, but only the cell
  that was clicked is revealed: \<^verbatim>\<open>reveal_cell\<close> sets the two flags itself and returns
  without calling \<^verbatim>\<open>game_over_sequence\<close>, whose loop reveals the mines. On a 5 by 5 board
  with mines at (1,1), (1,3), (3,1) and (3,3), clicking (0,0) and then (1,1) leaves the
  other three mines hidden (and the game uncounted in \<^verbatim>\<open>games_played\<close>).
\<close>

theorem loss_leaves_other_mines_hidden:
  "\<exists>g. play_game_loop [1,1, 1,3, 3,1, 3,3] [Reveal 0 0, Reveal 1 1] (custom_board 4) = Some g \<and>
     session_lost g \<and> mines g 1 1 \<and> state g 1 1 = CELL_REVEALED \<and>
     mines g 1 3 \<and> state g 1 3 = CELL_HIDDEN \<and>
     mines g 3 1 \<and> state g 3 1 = CELL_HIDDEN \<and>
     mines g 3 3 \<and> state g 3 3 = CELL_HIDDEN \<and> games_played g = 0"
proof -
  let ?run = "play_game_loop [1,1, 1,3, 3,1, 3,3] [Reveal 0 0, Reveal 1 1] (custom_board 4)"
  have "case ?run of None \<Rightarrow> False | Some g \<Rightarrow>
     session_lost g \<and> mines g 1 1 \<and> state g 1 1 = CELL_REVEALED \<and>
     mines g 1 3 \<and> state g 1 3 = CELL_HIDDEN \<and>
     mines g 3 1 \<and> state g 3 1 = CELL_HIDDEN \<and>
     mines g 3 3 \<and> state g 3 3 = CELL_HIDDEN \<and> games_played g = 0"
    by code_simp
  then show ?thesis by (cases ?run) auto
qed

lemma handle_first_click_fields:
  assumes "handle_first_click rs row col g = Some g0"
  shows "revealed_count g0 = revealed_count g" "state g0 = state g" "width g0 = width g"
    "height g0 = height g" "game_over g0 = game_over g"
  using assms generate_mines_fields[of rs row col g]
  by (auto simp: handle_first_click_def split: if_splits)

lemma newly_revealed_iff:
  "(i, j) \<in> newly_revealed g g' \<longleftrightarrow>
     is_valid_position g i j \<and> state g i j = CELL_HIDDEN \<and> state g' i j = CELL_REVEALED"
  by (simp add: newly_revealed_def board_cells_iff)

lemma newly_revealed_cong:
  "width a = width g \<Longrightarrow> height a = height g \<Longrightarrow> state a = state g \<Longrightarrow>
     newly_revealed a g' = newly_revealed g g'"
  by (simp add: newly_revealed_def board_cells_def)

lemma finite_newly_revealed: "finite (newly_revealed g g')"
  by (simp add: newly_revealed_def finite_board_cells)

lemma cascade_count:
  assumes "cascade_inv g" "cascade_inv g'" "same_board g g'" "only_reveals g g'"
  shows "revealed_count g' = revealed_count g + int (card (newly_revealed g g' - mine_cells g))"
proof -
  let ?M = "mine_cells g"
  have M': "mine_cells g' = ?M"
    by (rule mine_cells_cong) (use assms(3) in \<open>simp_all add: same_board_def\<close>)
  have v': "is_valid_position g' = is_valid_position g" by (rule same_board_valid[OF assms(3)])
  have sub: "revealed_cells g \<subseteq> revealed_cells g'"
  proof (rule subsetI, clarify)
    fix i j assume "(i, j) \<in> revealed_cells g"
    then have "is_valid_position g i j" "state g i j = CELL_REVEALED"
      by (simp_all add: revealed_cells_iff)
    moreover from only_reveals_cases[OF assms(4), of i j] this(2)
    have "state g' i j = CELL_REVEALED" by auto
    ultimately show "(i, j) \<in> revealed_cells g'" using v' by (simp add: revealed_cells_iff)
  qed
  have split: "revealed_cells g' - ?M = (revealed_cells g - ?M) \<union> (newly_revealed g g' - ?M)"
  proof (intro set_eqI iffI; clarify)
    fix i j assume r: "(i, j) \<in> revealed_cells g'" and nm: "(i, j) \<notin> ?M"
      and nn: "(i, j) \<notin> newly_revealed g g'"
    from r have v: "is_valid_position g i j" and s: "state g' i j = CELL_REVEALED"
      using v' by (simp_all add: revealed_cells_iff)
    from nm v have "\<not> mines g i j" by (simp add: mine_cells_iff)
    with assms(4) s have "state g i j = CELL_REVEALED \<or> state g i j = CELL_HIDDEN"
      unfolding only_reveals_def by metis
    with nn v s have "state g i j = CELL_REVEALED" by (auto simp: newly_revealed_iff)
    with v show "(i, j) \<in> revealed_cells g" by (simp add: revealed_cells_iff)
  next
    fix i j assume "(i, j) \<in> (revealed_cells g - ?M) \<union> (newly_revealed g g' - ?M)"
    then show "(i, j) \<in> revealed_cells g' - ?M"
      using sub v' by (auto simp: newly_revealed_iff) (simp add: revealed_cells_iff)
  qed
  have disj: "(revealed_cells g - ?M) \<inter> (newly_revealed g g' - ?M) = {}"
    by (auto simp: newly_revealed_iff revealed_cells_iff)
  have "card (revealed_cells g' - ?M) = card (revealed_cells g - ?M) + card (newly_revealed g g' - ?M)"
    unfolding split using disj finite_revealed_cells[of g] finite_newly_revealed[of g g']
    by (intro card_Un_disjoint) auto
  with assms(1,2) M' show ?thesis by (simp add: cascade_inv_def)
qed

section \<open>Flags and the cascade\<close>

text \<open>What a reveal of a hidden cell without a mine does to a game inside the cascade
  invariant.\<close>

lemma safe_reveal_effect:
  assumes "cascade_inv g" "is_valid_position g row col" "state g row col = CELL_HIDDEN"
    "\<not> mines g row col" "reveal_cell rs row col g = Some g'"
  shows "cascade_inv g'" "same_board g g'" "only_reveals g g'" "closed_zeros g g'"
    "state g' row col = CELL_REVEALED"
    "\<And>i j. state g i j = CELL_HIDDEN \<Longrightarrow> state g' i j = CELL_REVEALED \<Longrightarrow> \<not> mines g i j
        \<Longrightarrow> (i, j) \<in> cascade_region g row col"
    "revealed_count g' = revealed_count g + int (card (newly_revealed g g' - mine_cells g))"
proof -
  have nm: "is_valid_position g row col \<and> state g row col = CELL_HIDDEN \<longrightarrow> \<not> mines g row col"
    using assms(4) by simp
  from cascade_inv_total(1)[OF assms(1) nm, of rs] assms(5)
  show inv': "cascade_inv g'" and sb: "same_board g g'" by auto
  from cascade_effect(1)[OF assms(1) nm assms(5)]
  show orv: "only_reveals g g'" and "closed_zeros g g'"
    and "\<And>i j. state g i j = CELL_HIDDEN \<Longrightarrow> state g' i j = CELL_REVEALED \<Longrightarrow> \<not> mines g i j
        \<Longrightarrow> (i, j) \<in> cascade_region g row col"
    and nh: "state g' row col = CELL_REVEALED"
    using assms(2,3) only_reveals_cases[of g g' row col] by auto
  show "revealed_count g' = revealed_count g + int (card (newly_revealed g g' - mine_cells g))"
    by (rule cascade_count[OF assms(1) inv' sb orv])
qed

text \<open>
  Claim C10, as the code has it. For a reveal issued in a running game reached from a
  configured board, every cell that was flagged is still flagged afterwards, unless the
  reveal wins the game and the cell holds a mine: then \<^verbatim>\<open>game_over_sequence\<close> has revealed
  it. \<^verbatim>\<open>revealed_count\<close> grows by the number of mine-free cells that went from hidden to
  revealed (plus one for the mine of a losing reveal, hidden as well): a flagged cell is
  never counted.
\<close>

theorem flags_survive_reveal:
  assumes "configured g0" "play_game_loop rs cmds g0 = Some g" "\<not> game_over g"
    "reveal_cell rs' row col g = Some g'"
  shows "(\<forall>i j. state g i j = CELL_FLAGGED \<longrightarrow>
            state g' i j = CELL_FLAGGED \<or>
            (session_won g' \<and> mines g' i j \<and> state g' i j = CELL_REVEALED))
       \<and> revealed_count g' =
           revealed_count g + int (card (newly_revealed g g' - mine_cells g'))
             + (if session_lost g' then 1 else 0)"
proof (cases "\<not> is_valid_position g row col \<or> state g row col \<noteq> CELL_HIDDEN")
  case True
  with assms(4) have "g' = g" by (simp add: reveal_cell_rejected)
  moreover have "newly_revealed g g = {}" by (auto simp: newly_revealed_iff)
  moreover have "\<not> session_lost g" using assms(3) by (simp add: session_lost_def)
  ultimately show ?thesis by simp
next
  case False
  then have v: "is_valid_position g row col" and h: "state g row col = CELL_HIDDEN" by auto
  note inv = play_from_configured[OF assms(1,2)]
  from reveal_accepted_handle[OF v h assms(4)] obtain g1
    where g1: "handle_first_click rs' row col g = Some g1" .
  note s = reveal_accepted_session[OF inv assms(3) v h g1]
  note f = handle_first_click_fields[OF g1]
  from assms(4) s(9) have run: "reveal_cell rs' row col g1 = Some g'" by simp
  have nr: "newly_revealed g g' = newly_revealed g1 g'"
    by (rule newly_revealed_cong[symmetric]) (simp_all add: f)
  show ?thesis
  proof (cases "mines g1 row col")
    case True
    from reveal_running[OF s(1,2,3,10,11), of rs'] run True
    have g': "g' = (mark_revealed g1 row col)\<lparr>game_over := True, victory := False\<rparr>" by simp
    have st: "state g' i j = (if i = row \<and> j = col then CELL_REVEALED else state g i j)" for i j
      by (simp add: g' f)
    have "newly_revealed g g' = {(row, col)}"
      using v h by (auto simp: newly_revealed_iff st split: if_splits)
    moreover have "(row, col) \<in> mine_cells g'"
      using True v f by (simp add: mine_cells_iff g' is_valid_position_def)
    ultimately have "card (newly_revealed g g' - mine_cells g') = 0" by simp
    moreover have "session_lost g'" by (simp add: g' session_lost_def)
    moreover have "revealed_count g' = revealed_count g + 1" by (simp add: g' f)
    ultimately show ?thesis using st h by auto
  next
    case nm: False
    note e = safe_reveal_effect[OF s(1,10,11) nm run]
    have m': "mines g' = mines g1" using e(2) by (simp add: same_board_def)
    have M': "mine_cells g' = mine_cells g1"
      by (rule mine_cells_cong) (use e(2) in \<open>simp_all add: same_board_def\<close>)
    have nl: "\<not> session_lost g'" using e(1) by (auto simp: cascade_inv_def session_lost_def)
    have fl: "state g' i j = CELL_FLAGGED \<or>
            (session_won g' \<and> mines g' i j \<and> state g' i j = CELL_REVEALED)"
      if "state g i j = CELL_FLAGGED" for i j
    proof (cases "state g' i j = CELL_FLAGGED")
      case True
      then show ?thesis ..
    next
      case False
      with that f(2) have ne: "state g' i j \<noteq> state g1 i j" by simp
      have "state g1 i j \<noteq> CELL_HIDDEN" using that f(2) by simp
      with e(3) ne have ch: "is_valid_position g1 i j" "state g' i j = CELL_REVEALED" "mines g1 i j"
        unfolding only_reveals_def by blast+
      then have "(i, j) \<in> revealed_cells g' \<inter> mine_cells g'"
        using same_board_valid[OF e(2)] m' by (simp add: revealed_cells_iff mine_cells_iff)
      with e(1) have "session_won g'" by (auto simp: cascade_inv_def session_won_def split: if_splits)
      with ch m' show ?thesis by simp
    qed
    from e(7) nr M' nl f fl show ?thesis by simp
  qed
qed

theorem flags_survive_reveal_witness:
  "\<exists>g g'. play_game_loop [1,1, 1,3, 3,1, 3,3] [Flag 1 1, Reveal 0 0] (custom_board 4) = Some g \<and>
     reveal_cell [] 2 2 g = Some g' \<and> state g 1 1 = CELL_FLAGGED \<and> state g' 1 1 = CELL_FLAGGED \<and>
     revealed_count g' = revealed_count g + int (card (newly_revealed g g' - mine_cells g'))"
proof -
  let ?run = "play_game_loop [1,1, 1,3, 3,1, 3,3] [Flag 1 1, Reveal 0 0] (custom_board 4)"
  have "case ?run of None \<Rightarrow> False | Some g \<Rightarrow> \<not> game_over g \<and> state g 1 1 = CELL_FLAGGED \<and>
          (case reveal_cell [] 2 2 g of None \<Rightarrow> False | Some g' \<Rightarrow> \<not> game_over g')"
    by code_simp
  then obtain g g' where run: "?run = Some g" and r: "reveal_cell [] 2 2 g = Some g'"
    and f: "\<not> game_over g" "state g 1 1 = CELL_FLAGGED" "\<not> game_over g'"
    by (cases ?run; simp; cases "reveal_cell [] 2 2 (the ?run)"; simp)
  have c: "configured (custom_board 4)" by (rule configured_custom_board) simp_all
  from flags_survive_reveal[OF c run f(1) r] f run r show ?thesis
    by (auto simp: session_won_def session_lost_def)
qed

text \<open>
  Claim C10 as stated says that every flagged cell is still flagged after every reveal.
  On the 5 by 5 board with mines at (1,1), (1,3), (3,1) and (3,3), with (1,1) flagged
  and every mine-free cell but (4,4) revealed, the reveal of (4,4) wins the game and the
  flagged cell (1,1) ends up revealed.
\<close>

theorem flagged_mine_revealed_on_victory:
  "\<exists>g g'. play_game_loop [1,1, 1,3, 3,1, 3,3]
     [Flag 1 1, Reveal 0 0, Reveal 0 1, Reveal 0 2, Reveal 0 3, Reveal 0 4,
      Reveal 1 0, Reveal 1 2, Reveal 1 4,
      Reveal 2 0, Reveal 2 1, Reveal 2 2, Reveal 2 3, Reveal 2 4,
      Reveal 3 0, Reveal 3 2, Reveal 3 4,
      Reveal 4 0, Reveal 4 1, Reveal 4 2, Reveal 4 3] (custom_board 4) = Some g \<and>
     \<not> game_over g \<and> state g 1 1 = CELL_FLAGGED \<and>
     reveal_cell [] 4 4 g = Some g' \<and> state g' 1 1 = CELL_REVEALED \<and> state g' 1 1 \<noteq> CELL_FLAGGED"
proof -
  let ?run = "play_game_loop [1,1, 1,3, 3,1, 3,3]
     [Flag 1 1, Reveal 0 0, Reveal 0 1, Reveal 0 2, Reveal 0 3, Reveal 0 4,
      Reveal 1 0, Reveal 1 2, Reveal 1 4,
      Reveal 2 0, Reveal 2 1, Reveal 2 2, Reveal 2 3, Reveal 2 4,
      Reveal 3 0, Reveal 3 2, Reveal 3 4,
      Reveal 4 0, Reveal 4 1, Reveal 4 2, Reveal 4 3] (custom_board 4)"
  have "case ?run of None \<Rightarrow> False | Some g \<Rightarrow> \<not> game_over g \<and> state g 1 1 = CELL_FLAGGED \<and>
          (case reveal_cell [] 4 4 g of None \<Rightarrow> False | Some g' \<Rightarrow> state g' 1 1 = CELL_REVEALED)"
    by code_simp
  then obtain g g' where "?run = Some g" "reveal_cell [] 4 4 g = Some g'"
    "\<not> game_over g" "state g 1 1 = CELL_FLAGGED" "state g' 1 1 = CELL_REVEALED"
    by (cases ?run; simp; cases "reveal_cell [] 4 4 (the ?run)"; simp)
  then show ?thesis by auto
qed

lemma cascade_region_revealed:
  assumes "cascade_inv g" "is_valid_position g row col" "state g row col = CELL_HIDDEN"
    "\<not> mines g row col" "reveal_cell rs row col g = Some g'" "(i, j) \<in> cascade_region g row col"
  shows "is_valid_position g i j \<and> state g i j = CELL_HIDDEN \<and> \<not> mines g i j \<and>
         state g' i j = CELL_REVEALED"
  using assms(6)
proof (induction rule: cascade_region.induct)
  case clicked
  from safe_reveal_effect(5)[OF assms(1-5)] assms(2,3,4) show ?case by simp
next
  case (spread i j dr dc)
  note e = safe_reveal_effect[OF assms(1-5)]
  from spread(2) have "count_adjacent_mines g i j = 0" by (simp add: zero_cell_def)
  from zero_count_no_mine[OF this spread(3,4)] have nm: "\<not> mines g (i + dr) (j + dc)" .
  from spread(6) have hi: "state g i j = CELL_HIDDEN" and re: "state g' i j = CELL_REVEALED"
    by simp_all
  from closed_zerosD[OF e(4) spread(2) hi re spread(3,4)]
  have "state g' (i + dr) (j + dc) \<noteq> CELL_HIDDEN" .
  with only_reveals_cases[OF e(3), of "i + dr" "j + dc"] spread(5)
  have "state g' (i + dr) (j + dc) = CELL_REVEALED" by auto
  with spread(4,5) nm show ?case by simp
qed

text \<open>
  Claim C4, as the code has it. Take a running game reached from a configured board and a
  reveal of a hidden cell of the board that holds no mine once the first click has been
  handled (\<open>g1\<close> is the game after that block: the mines are placed, the cell states are
  those of \<open>g\<close>). The reveal returns, and the cells without a mine that it turns from
  hidden to revealed are exactly the cells of the cascade region: the clicked cell and,
  step by step, every hidden neighbour of a region cell that has no mine around it. So
  every cell with no mine around it that is linked to the clicked one by a chain of such
  cells, all hidden when the reveal starts, is revealed together with its hidden
  neighbours; a neighbour with a number is revealed and goes no further; a flagged cell
  without a mine stays flagged and is not entered; and \<^verbatim>\<open>revealed_count\<close> grows by exactly
  the number of cells of the region, each cell counted once.
\<close>

theorem cascade_opens_region:
  assumes "configured g0" "play_game_loop rs cmds g0 = Some g" "\<not> game_over g"
    "is_valid_position g row col" "state g row col = CELL_HIDDEN"
    "handle_first_click rs' row col g = Some g1" "\<not> mines g1 row col"
  shows "\<exists>g'. reveal_cell rs' row col g = Some g' \<and>
           (\<forall>i j. (i, j) \<in> cascade_region g1 row col \<longleftrightarrow>
               is_valid_position g i j \<and> state g i j = CELL_HIDDEN \<and>
               state g' i j = CELL_REVEALED \<and> \<not> mines g1 i j) \<and>
           (\<forall>i j. state g i j = CELL_FLAGGED \<and> \<not> mines g1 i j \<longrightarrow> state g' i j = CELL_FLAGGED) \<and>
           revealed_count g' = revealed_count g + int (card (cascade_region g1 row col))"
proof -
  note inv = play_from_configured[OF assms(1,2)]
  note s = reveal_accepted_session[OF inv assms(3,4,5,6)]
  note f = handle_first_click_fields[OF assms(6)]
  have nm: "is_valid_position g1 row col \<and> state g1 row col = CELL_HIDDEN \<longrightarrow> \<not> mines g1 row col"
    using assms(7) by simp
  from cascade_inv_total(1)[OF s(1) nm, of rs'] obtain g'
    where run1: "reveal_cell rs' row col g1 = Some g'" by blast
  with s(9) have run: "reveal_cell rs' row col g = Some g'" by simp
  note e = safe_reveal_effect[OF s(1,10,11) assms(7) run1]
  have vg: "is_valid_position g1 = is_valid_position g"
    by (rule is_valid_position_cong) (simp_all add: f)
  have iff: "(i, j) \<in> cascade_region g1 row col \<longleftrightarrow>
               is_valid_position g i j \<and> state g i j = CELL_HIDDEN \<and>
               state g' i j = CELL_REVEALED \<and> \<not> mines g1 i j" for i j
    using cascade_region_revealed[OF s(1,10,11) assms(7) run1, of i j] e(6)[of i j] vg f(2)
    by auto
  have "newly_revealed g1 g' - mine_cells g1 = cascade_region g1 row col"
    using iff vg f(2) by (auto simp: newly_revealed_iff mine_cells_iff)
  with e(7) f(1) have cnt: "revealed_count g' = revealed_count g + int (card (cascade_region g1 row col))"
    by simp
  have fl: "state g' i j = CELL_FLAGGED" if "state g i j = CELL_FLAGGED" "\<not> mines g1 i j" for i j
  proof (rule ccontr)
    assume "state g' i j \<noteq> CELL_FLAGGED"
    with that(1) f(2) have "state g' i j \<noteq> state g1 i j" "state g1 i j \<noteq> CELL_HIDDEN" by simp_all
    with e(3) have "mines g1 i j" unfolding only_reveals_def by blast
    with that(2) show False ..
  qed
  from run iff fl cnt show ?thesis by blast
qed

theorem cascade_opens_region_witness:
  "\<exists>g1 g'. handle_first_click [3,1, 2,3] 4 4 (custom_board 2) = Some g1 \<and>
      reveal_cell [3,1, 2,3] 4 4 (custom_board 2) = Some g' \<and>
      zero_cell g1 4 4 \<and> zero_cell g1 4 3 \<and> \<not> zero_cell g1 3 2 \<and>
      (3, 2) \<in> cascade_region g1 4 4 \<and> state g' 3 2 = CELL_REVEALED \<and>
      (2, 2) \<notin> cascade_region g1 4 4 \<and>
      revealed_count g' = int (card (cascade_region g1 4 4))"
proof -
  let ?b = "custom_board 2"
  let ?h = "handle_first_click [3,1, 2,3] 4 4 ?b"
  have "case ?h of None \<Rightarrow> False | Some g1 \<Rightarrow>
          \<not> mines g1 4 4 \<and> zero_cell g1 4 4 \<and> zero_cell g1 4 3 \<and> \<not> zero_cell g1 3 2 \<and>
          is_valid_position g1 4 3 \<and> state g1 4 3 = CELL_HIDDEN \<and>
          is_valid_position g1 3 2 \<and> state g1 3 2 = CELL_HIDDEN"
    by code_simp
  then obtain g1 where g1: "?h = Some g1" and f: "\<not> mines g1 4 4" "zero_cell g1 4 4"
    "zero_cell g1 4 3" "\<not> zero_cell g1 3 2" "is_valid_position g1 (4 + 0) (4 + (-1))"
    "state g1 (4 + 0) (4 + (-1)) = CELL_HIDDEN"
    "is_valid_position g1 (4 + (-1)) (3 + (-1))" "state g1 (4 + (-1)) (3 + (-1)) = CELL_HIDDEN"
    by (cases ?h) auto
  have o: "(0, -1) \<in> set neighbour_offsets" "(-1, -1) \<in> set neighbour_offsets"
    by (simp_all add: neighbour_offsets_def)
  have "(4 + 0, 4 + (-1)) \<in> cascade_region g1 4 4"
    by (rule cascade_region.spread[OF cascade_region.clicked f(2) o(1) f(5,6)])
  then have a: "(4, 3) \<in> cascade_region g1 4 4" by simp
  have "(4 + (-1), 3 + (-1)) \<in> cascade_region g1 4 4"
    by (rule cascade_region.spread[OF a f(3) o(2) f(7,8)])
  then have m: "(3, 2) \<in> cascade_region g1 4 4" by simp
  have c: "configured ?b" by (rule configured_custom_board) simp_all
  have p: "play_game_loop [] [] ?b = Some ?b" by simp
  have b: "\<not> game_over ?b" "is_valid_position ?b 4 4" "state ?b 4 4 = CELL_HIDDEN"
    "revealed_count ?b = 0" "state ?b 2 2 = CELL_HIDDEN" "is_valid_position ?b 2 2"
    by code_simp+
  from cascade_opens_region[OF c p b(1,2,3) g1 f(1)] obtain g' where
    r: "reveal_cell [3,1, 2,3] 4 4 ?b = Some g'"
    and iff: "\<And>i j. (i, j) \<in> cascade_region g1 4 4 \<longleftrightarrow>
               is_valid_position ?b i j \<and> state ?b i j = CELL_HIDDEN \<and>
               state g' i j = CELL_REVEALED \<and> \<not> mines g1 i j"
    and cnt: "revealed_count g' = revealed_count ?b + int (card (cascade_region g1 4 4))"
    by blast
  have "case reveal_cell [3,1, 2,3] 4 4 ?b of None \<Rightarrow> False
          | Some g' \<Rightarrow> state g' 2 2 \<noteq> CELL_REVEALED"
    by code_simp
  with r have "state g' 2 2 \<noteq> CELL_REVEALED" by simp
  with iff[of 2 2] have "(2, 2) \<notin> cascade_region g1 4 4" by simp
  with g1 r f m iff[of 3 2] cnt b(4) show ?thesis by auto
qed

text \<open>
  Claim C4 as stated asks for every cell with no mine around it that a chain of such cells
  links to the clicked one to be revealed. A flag stops the chain. On the 5 by 5 board
  with mines at (3,1) and (2,3), the cells (4,4) and (4,3) have no mine around them and are
  neighbours; with (4,3) flagged, the reveal of (4,4) leaves (4,3) flagged and its
  neighbour (3,2) hidden.
\<close>

theorem flagged_zero_cell_blocks_cascade:
  "\<exists>g. play_game_loop [3,1, 2,3] [Flag 4 3, Reveal 4 4] (custom_board 2) = Some g \<and>
     zero_cell g 4 4 \<and> state g 4 4 = CELL_REVEALED \<and>
     zero_cell g 4 3 \<and> state g 4 3 = CELL_FLAGGED \<and> state g 4 3 \<noteq> CELL_REVEALED \<and>
     \<not> mines g 3 2 \<and> state g 3 2 = CELL_HIDDEN \<and> revealed_count g = 3"
proof -
  let ?run = "play_game_loop [3,1, 2,3] [Flag 4 3, Reveal 4 4] (custom_board 2)"
  have "case ?run of None \<Rightarrow> False | Some g \<Rightarrow>
     zero_cell g 4 4 \<and> state g 4 4 = CELL_REVEALED \<and>
     zero_cell g 4 3 \<and> state g 4 3 = CELL_FLAGGED \<and>
     \<not> mines g 3 2 \<and> state g 3 2 = CELL_HIDDEN \<and> revealed_count g = 3"
    by code_simp
  then show ?thesis by (cases ?run) auto
qed

end
